theory Spec2Isabelle
  imports Complex_Main
begin

section \<open>JavaScript numbers\<close>

text \<open>
  The components of a \<^verbatim>\<open>vec2\<close> are JavaScript numbers: IEEE 754 binary64 values. A
  number is NaN, an infinity, the negative zero, or a real (\<open>Num 0\<close> is the positive
  zero). The heap may hold any real; an operation computes the exact real result and
  hands it to a rounding, which is a parameter of every operation and method:
  \<^item> \<open>double\<close> rounds to the nearest binary64 value, ties to even, with overflow to an
    infinity and underflow through the subnormal range to a signed zero: this is the
    arithmetic of the program;
  \<^item> \<open>exact\<close> rounds nothing: this is exact real arithmetic, the frame of the
    statements that say so.
\<close>

datatype number = NaN | PInf | NInf | NZero | Num real

type_synonym rounding = "bool \<Rightarrow> real \<Rightarrow> number"

text \<open>The real a finite number stands for (both zeros stand for 0).\<close>

fun real_of :: "number \<Rightarrow> real" where
  "real_of (Num r) = r"
| "real_of n = 0"

text \<open>The sign bit.\<close>

fun negative :: "number \<Rightarrow> bool" where
  "negative NInf = True"
| "negative NZero = True"
| "negative (Num r) = (r < 0)"
| "negative n = False"

fun is_zero :: "number \<Rightarrow> bool" where
  "is_zero NZero = True"
| "is_zero (Num r) = (r = 0)"
| "is_zero n = False"

fun is_inf :: "number \<Rightarrow> bool" where
  "is_inf PInf = True"
| "is_inf NInf = True"
| "is_inf n = False"

text \<open>What \<^verbatim>\<open>Number.isFinite\<close> answers: neither NaN nor an infinity.\<close>

definition is_finite :: "number \<Rightarrow> bool" where
  "is_finite a = (a \<noteq> NaN \<and> \<not> is_inf a)"

definition inf_of :: "bool \<Rightarrow> number" where
  "inf_of s = (if s then NInf else PInf)"

definition zero_of :: "bool \<Rightarrow> number" where
  "zero_of s = (if s then NZero else Num 0)"

subsection \<open>The two roundings\<close>

text \<open>
  A rounding takes the sign that a zero result carries and the exact result. Exact
  real arithmetic has one zero and keeps every real.
\<close>

definition exact :: rounding where
  "exact s r = Num r"

text \<open>Rounding a non-negative real to the nearest integer, ties to the even one.\<close>

definition round_half_even :: "real \<Rightarrow> int" where
  "round_half_even q =
     (let f = \<lfloor>q\<rfloor>; d = q - of_int f in
      if d < 1 / 2 then f
      else if 1 / 2 < d then f + 1
      else if even f then f else f + 1)"

text \<open>
  Rounding a real that is not zero to binary64: 53 significant bits, exponents from
  -1022 (below it the spacing stays that of the subnormal numbers, \<^verbatim>\<open>2^-1074\<close>) to
  1023; a rounded magnitude of \<^verbatim>\<open>2^1024\<close> or more is an infinity, and a magnitude
  rounded to nothing is a zero of the sign of the real.
\<close>

definition round_double :: "real \<Rightarrow> number" where
  "round_double r =
     (let e = max \<lfloor>log 2 \<bar>r\<bar>\<rfloor> (- 1022);
          u = 2 powi (e - 52);
          n = round_half_even (\<bar>r\<bar> / u);
          m = of_int n * u
      in if 2 ^ 1024 \<le> m then inf_of (r < 0)
         else if n = 0 then zero_of (r < 0)
         else Num (if r < 0 then - m else m))"

definition double :: rounding where
  "double s r = (if r = 0 then zero_of s else round_double r)"

subsection \<open>Arithmetic\<close>

text \<open>
  The IEEE rules for NaN, the infinities and the sign of a zero result are written
  out; every other result is the rounding of the exact one. A zero difference of two
  equal numbers is positive, a zero product or quotient has the sign of its operands.
\<close>

definition num_neg :: "rounding \<Rightarrow> number \<Rightarrow> number" where
  "num_neg rd a =
     (case a of
        NaN \<Rightarrow> NaN
      | PInf \<Rightarrow> NInf
      | NInf \<Rightarrow> PInf
      | NZero \<Rightarrow> Num 0
      | Num r \<Rightarrow> (if r = 0 then rd True 0 else Num (- r)))"

definition num_add :: "rounding \<Rightarrow> number \<Rightarrow> number \<Rightarrow> number" where
  "num_add rd a b =
     (if a = NaN \<or> b = NaN then NaN
      else if is_inf a then (if is_inf b \<and> b \<noteq> a then NaN else a)
      else if is_inf b then b
      else rd (negative a \<and> negative b) (real_of a + real_of b))"

definition num_sub :: "rounding \<Rightarrow> number \<Rightarrow> number \<Rightarrow> number" where
  "num_sub rd a b = num_add rd a (num_neg rd b)"

definition num_mul :: "rounding \<Rightarrow> number \<Rightarrow> number \<Rightarrow> number" where
  "num_mul rd a b =
     (if a = NaN \<or> b = NaN then NaN
      else if is_inf a \<or> is_inf b then
        (if is_zero a \<or> is_zero b then NaN else inf_of (negative a \<noteq> negative b))
      else rd (negative a \<noteq> negative b) (real_of a * real_of b))"

definition num_div :: "rounding \<Rightarrow> number \<Rightarrow> number \<Rightarrow> number" where
  "num_div rd a b =
     (if a = NaN \<or> b = NaN then NaN
      else if is_inf a then (if is_inf b then NaN else inf_of (negative a \<noteq> negative b))
      else if is_inf b then rd (negative a \<noteq> negative b) 0
      else if is_zero b then
        (if is_zero a then NaN else inf_of (negative a \<noteq> negative b))
      else rd (negative a \<noteq> negative b) (real_of a / real_of b))"

text \<open>The comparisons \<^verbatim>\<open>==\<close> and \<^verbatim>\<open><\<close>: false as soon as an operand is NaN; the
  two zeros are equal.\<close>

definition js_eq :: "number \<Rightarrow> number \<Rightarrow> bool" where
  "js_eq a b = (a \<noteq> NaN \<and> b \<noteq> NaN \<and> (a = b \<or> is_zero a \<and> is_zero b))"

definition js_lt :: "number \<Rightarrow> number \<Rightarrow> bool" where
  "js_lt a b =
     (a \<noteq> NaN \<and> b \<noteq> NaN \<and>
      (if is_inf a \<or> is_inf b then a = NInf \<and> b \<noteq> NInf \<or> b = PInf \<and> a \<noteq> PInf
       else real_of a < real_of b))"

subsection \<open>The functions of \<^verbatim>\<open>Math\<close> the class calls\<close>

text \<open>
  On a finite argument each function is the rounding of the exact value. For
  \<^verbatim>\<open>Math.sqrt\<close> that is what IEEE 754 prescribes; for the others ECMAScript leaves the
  last digit to the implementation, and the statements about \<open>double\<close> below rest on
  them only where that digit does not matter: the exact value is itself a binary64
  value, the result is a special value, or the statement is that \<^verbatim>\<open>Math.acos\<close>
  answers NaN or a number from 0 to \<^verbatim>\<open>Math.PI\<close>.
\<close>

definition Math_sqrt :: "rounding \<Rightarrow> number \<Rightarrow> number" where
  "Math_sqrt rd a =
     (case a of
        NaN \<Rightarrow> NaN
      | PInf \<Rightarrow> PInf
      | NInf \<Rightarrow> NaN
      | NZero \<Rightarrow> NZero
      | Num r \<Rightarrow> (if r < 0 then NaN else rd False (sqrt r)))"

definition Math_sin :: "rounding \<Rightarrow> number \<Rightarrow> number" where
  "Math_sin rd a =
     (case a of
        Num r \<Rightarrow> rd (r < 0) (sin r)
      | NZero \<Rightarrow> NZero
      | _ \<Rightarrow> NaN)"

definition Math_cos :: "rounding \<Rightarrow> number \<Rightarrow> number" where
  "Math_cos rd a =
     (case a of
        Num r \<Rightarrow> rd False (cos r)
      | NZero \<Rightarrow> Num 1
      | _ \<Rightarrow> NaN)"

definition Math_acos :: "rounding \<Rightarrow> number \<Rightarrow> number" where
  "Math_acos rd a =
     (case a of
        Num r \<Rightarrow> (if - 1 \<le> r \<and> r \<le> 1 then rd False (arccos r) else NaN)
      | NZero \<Rightarrow> rd False (arccos 0)
      | _ \<Rightarrow> NaN)"


definition Math_PI :: "rounding \<Rightarrow> number" where
  "Math_PI rd = rd False pi"

text \<open>
  \<^verbatim>\<open>Math.pow(base, exponent)\<close>, in the order of the cases of ECMAScript's
  \<^verbatim>\<open>Number::exponentiate\<close>: a NaN exponent, a zero exponent, a NaN base, an
  infinite base, a zero base, an infinite exponent, a negative base with an exponent
  that is not an integer, and last the real power.
\<close>

definition is_integer :: "real \<Rightarrow> bool" where
  "is_integer e = (of_int \<lfloor>e\<rfloor> = e)"

definition is_odd_integer :: "real \<Rightarrow> bool" where
  "is_odd_integer e = (is_integer e \<and> odd \<lfloor>e\<rfloor>)"

definition is_even_integer :: "real \<Rightarrow> bool" where
  "is_even_integer e = (is_integer e \<and> even \<lfloor>e\<rfloor>)"

definition Math_pow :: "rounding \<Rightarrow> number \<Rightarrow> number \<Rightarrow> number" where
  "Math_pow rd base ex =
     (case ex of
        NaN \<Rightarrow> NaN
      | NZero \<Rightarrow> Num 1
      | Num e \<Rightarrow>
          (if e = 0 then Num 1
           else case base of
             NaN \<Rightarrow> NaN
           | PInf \<Rightarrow> (if 0 < e then PInf else Num 0)
           | NInf \<Rightarrow>
               (if 0 < e then (if is_odd_integer e then NInf else PInf)
                else (if is_odd_integer e then rd True 0 else Num 0))
           | NZero \<Rightarrow>
               (if 0 < e then (if is_odd_integer e then NZero else Num 0)
                else (if is_odd_integer e then NInf else PInf))
           | Num b \<Rightarrow>
               (if b = 0 then (if 0 < e then Num 0 else PInf)
                else if b < 0 \<and> \<not> is_integer e then NaN
                else if b < 0 \<and> is_odd_integer e then rd True (- (\<bar>b\<bar> powr e))
                else rd False (\<bar>b\<bar> powr e)))
      | PInf \<Rightarrow>
          (case base of
             NaN \<Rightarrow> NaN
           | PInf \<Rightarrow> PInf
           | NInf \<Rightarrow> PInf
           | NZero \<Rightarrow> Num 0
           | Num b \<Rightarrow>
               (if b = 0 then Num 0
                else if 1 < \<bar>b\<bar> then PInf else if \<bar>b\<bar> = 1 then NaN else Num 0))
      | NInf \<Rightarrow>
          (case base of
             NaN \<Rightarrow> NaN
           | PInf \<Rightarrow> Num 0
           | NInf \<Rightarrow> Num 0
           | NZero \<Rightarrow> PInf
           | Num b \<Rightarrow>
               (if b = 0 then PInf
                else if 1 < \<bar>b\<bar> then Num 0 else if \<bar>b\<bar> = 1 then NaN else PInf)))"

section \<open>The class \<^verbatim>\<open>vec2\<close>\<close>

text \<open>
  Every method mutates its receiver and returns it, and operands are objects that may
  be the receiver itself, so objects live in a heap: a method takes the rounding, the
  reference \<open>this\<close> and the heap, and returns the reference it returns together with
  the heap it leaves.
\<close>

type_synonym ref = nat

record vec2 =
  x :: number
  y :: number

type_synonym heap = "ref \<Rightarrow> vec2"

text \<open>A parameter with a default value: the default stands in for a missing argument.\<close>

fun dflt :: "number \<Rightarrow> number option \<Rightarrow> number" where
  "dflt d None = d"
| "dflt d (Some v) = v"

definition constructor :: "number option \<Rightarrow> number option \<Rightarrow> ref \<Rightarrow> heap \<Rightarrow> heap" where
  "constructor nx ny this h = h(this := \<lparr>x = dflt (Num 0) nx, y = dflt (Num 0) ny\<rparr>)"

text \<open>\<^verbatim>\<open>new vec2(x, y)\<close>: the constructor runs on the object the allocator hands out.\<close>

definition new_vec2 :: "number option \<Rightarrow> number option \<Rightarrow> ref \<Rightarrow> heap \<Rightarrow> ref \<times> heap" where
  "new_vec2 nx ny fresh h = (fresh, constructor nx ny fresh h)"

definition set_v :: "number \<Rightarrow> number \<Rightarrow> ref \<Rightarrow> heap \<Rightarrow> ref \<times> heap" where
  "set_v nx ny this h = (this, h(this := (h this)\<lparr>x := nx, y := ny\<rparr>))"

definition translate ::
  "rounding \<Rightarrow> number option \<Rightarrow> number option \<Rightarrow> ref \<Rightarrow> heap \<Rightarrow> ref \<times> heap" where
  "translate rd dx dy this h =
     (this, h(this := (h this)\<lparr>x := num_add rd (x (h this)) (dflt (Num 0) dx),
                                y := num_add rd (y (h this)) (dflt (Num 0) dy)\<rparr>))"

definition magSq :: "rounding \<Rightarrow> ref \<Rightarrow> heap \<Rightarrow> number" where
  "magSq rd this h =
     num_add rd (num_mul rd (x (h this)) (x (h this))) (num_mul rd (y (h this)) (y (h this)))"

definition mag :: "rounding \<Rightarrow> ref \<Rightarrow> heap \<Rightarrow> number" where
  "mag rd this h = Math_sqrt rd (magSq rd this h)"

definition scale :: "rounding \<Rightarrow> number \<Rightarrow> ref \<Rightarrow> heap \<Rightarrow> ref \<times> heap" where
  "scale rd val this h =
     (this, h(this := (h this)\<lparr>x := num_mul rd (x (h this)) val,
                                y := num_mul rd (y (h this)) val\<rparr>))"

definition normalize_v :: "rounding \<Rightarrow> ref \<Rightarrow> heap \<Rightarrow> ref \<times> heap" where
  "normalize_v rd this h =
     (let m = mag rd this h in
      if js_eq m (Num 0) then (this, h)
      else scale rd (num_div rd (Num 1) m) this h)"


definition clone :: "ref \<Rightarrow> ref \<Rightarrow> heap \<Rightarrow> ref \<times> heap" where
  "clone fresh this h = new_vec2 (Some (x (h this))) (Some (y (h this))) fresh h"

definition sub :: "rounding \<Rightarrow> ref \<Rightarrow> ref \<Rightarrow> heap \<Rightarrow> ref \<times> heap" where
  "sub rd other this h =
     translate rd (Some (num_neg rd (x (h other)))) (Some (num_neg rd (y (h other)))) this h"

definition add :: "rounding \<Rightarrow> ref \<Rightarrow> ref \<Rightarrow> heap \<Rightarrow> ref \<times> heap" where
  "add rd other this h = translate rd (Some (x (h other))) (Some (y (h other))) this h"

definition dot :: "rounding \<Rightarrow> ref \<Rightarrow> ref \<Rightarrow> heap \<Rightarrow> number" where
  "dot rd other this h =
     num_add rd (num_mul rd (x (h this)) (x (h other))) (num_mul rd (y (h this)) (y (h other)))"

definition cross :: "rounding \<Rightarrow> ref \<Rightarrow> ref \<Rightarrow> heap \<Rightarrow> number" where
  "cross rd other this h =
     num_sub rd (num_mul rd (x (h this)) (y (h other))) (num_mul rd (x (h other)) (y (h this)))"

definition setMag :: "rounding \<Rightarrow> number \<Rightarrow> ref \<Rightarrow> heap \<Rightarrow> ref \<times> heap" where
  "setMag rd mg this h = (case normalize_v rd this h of (r, h') \<Rightarrow> scale rd mg r h')"


text \<open>The static constants are objects of the heap, built when the class is defined.\<close>

definition ORIGIN :: ref where "ORIGIN = 0"
definition RIGHT :: ref where "RIGHT = 1"
definition LEFT :: ref where "LEFT = 2"
definition TOP :: ref where "TOP = 3"
definition DOWN :: ref where "DOWN = 4"

definition static_init :: "heap \<Rightarrow> heap" where
  "static_init h =
     (let h1 = constructor None None ORIGIN h;
          h2 = constructor (Some (Num 1)) (Some (Num 0)) RIGHT h1;
          h3 = constructor (Some (Num (- 1))) (Some (Num 0)) LEFT h2;
          h4 = constructor (Some (Num 0)) (Some (Num 1)) TOP h3
      in constructor (Some (Num 0)) (Some (Num (- 1))) DOWN h4)"

definition rotateAround ::
  "rounding \<Rightarrow> number \<Rightarrow> ref option \<Rightarrow> ref \<Rightarrow> heap \<Rightarrow> ref \<times> heap" where
  "rotateAround rd angle origin this h =
     (let origin' = (case origin of None \<Rightarrow> ORIGIN | Some r \<Rightarrow> r);
          ox = x (h origin'); oy = y (h origin');
          sin_a = Math_sin rd angle; cos_a = Math_cos rd angle;
          tx = num_sub rd (x (h this)) ox; ty = num_sub rd (y (h this)) oy
      in set_v (num_add rd (num_sub rd (num_mul rd tx cos_a) (num_mul rd ty sin_a)) ox)
               (num_add rd (num_add rd (num_mul rd tx sin_a) (num_mul rd ty cos_a)) oy)
               this h)"

definition norm_v :: "rounding \<Rightarrow> number option \<Rightarrow> ref \<Rightarrow> heap \<Rightarrow> number" where
  "norm_v rd p this h =
     (let n = dflt (Num 2) p in
      Math_pow rd (num_add rd (Math_pow rd (x (h this)) n) (Math_pow rd (y (h this)) n))
        (num_div rd (Num 1) n))"

definition angle :: "rounding \<Rightarrow> ref \<Rightarrow> ref \<Rightarrow> heap \<Rightarrow> number" where
  "angle rd v1 v2 h =
     Math_acos rd
       (num_div rd (dot rd v2 v1 h) (Math_sqrt rd (num_mul rd (magSq rd v1 h) (magSq rd v2 h))))"

definition angle2 :: "rounding \<Rightarrow> ref \<Rightarrow> ref \<Rightarrow> heap \<Rightarrow> number" where
  "angle2 rd v1 v2 h =
     (let a = angle rd v1 v2 h; sign = cross rd v2 v1 h in
      if js_lt sign (Num 0) then num_sub rd (num_mul rd (Num 2) (Math_PI rd)) a else a)"

subsection \<open>Method lookup\<close>

text \<open>
  The members the class body of \<^verbatim>\<open>vec2.js\<close> defines, in its order, and the
  methods every object inherits from \<^verbatim>\<open>Object.prototype\<close>. A call \<^verbatim>\<open>v.m(...)\<close>
  looks \<open>m\<close> up on the object and then along its prototype chain, which is
  \<^verbatim>\<open>vec2.prototype\<close> and \<^verbatim>\<open>Object.prototype\<close>. A name found nowhere is
  \<^verbatim>\<open>undefined\<close>, and the fields \<^verbatim>\<open>x\<close> and \<^verbatim>\<open>y\<close> hold numbers: calling either
  throws a TypeError. So does calling \<^verbatim>\<open>constructor\<close>, which is the class itself: a
  class is not callable without \<^verbatim>\<open>new\<close>.
\<close>

datatype error = TypeError

definition vec2_methods :: "string list" where
  "vec2_methods =
     [''constructor'', ''set'', ''translate'', ''magSq'', ''mag'', ''scale'',
      ''normalize'', ''copy'', ''clone'', ''sub'', ''add'', ''dot'', ''cross'',
      ''setMag'', ''setDirection'', ''rotateAround'', ''norm'']"

definition vec2_statics :: "string list" where
  "vec2_statics = [''angle'', ''angle2'', ''ORIGIN'', ''RIGHT'', ''LEFT'', ''TOP'', ''DOWN'']"

text \<open>The instance members \<^verbatim>\<open>vec2.d.ts\<close> declares for the same class.\<close>

definition vec2_declared :: "string list" where
  "vec2_declared =
     [''x'', ''y'', ''constructor'', ''set'', ''translate'', ''magSq'', ''mag'', ''scale'',
      ''normalize'', ''copy'', ''clone'', ''sub'', ''add'', ''dot'', ''cross'',
      ''setMag'', ''hadamard'', ''setDirection'', ''rotateAround'', ''norm'',
      ''toPolar'', ''toCartesian'', ''r'', ''theta'', ''lerp'']"

definition object_prototype_methods :: "string list" where
  "object_prototype_methods =
     [''hasOwnProperty'', ''isPrototypeOf'', ''propertyIsEnumerable'', ''toLocaleString'',
      ''toString'', ''valueOf'', ''__defineGetter__'', ''__defineSetter__'',
      ''__lookupGetter__'', ''__lookupSetter__'']"

definition call_method :: "string \<Rightarrow> error + string" where
  "call_method m =
     (if m = ''constructor'' then Inl TypeError
      else if m \<in> set vec2_methods then Inr m
      else if m \<in> set object_prototype_methods then Inr m
      else Inl TypeError)"

subsection \<open>The mathematical p-norm and a start heap\<close>

text \<open>
  The p-norm \<^verbatim>\<open>(|a|^p + |b|^p)^(1/p)\<close> of two reals, a real itself. It is defined
  for \<open>0 < p\<close> only: no value stands for it elsewhere. It is what the method
  \<^verbatim>\<open>norm\<close> is compared with, not code of the class.
\<close>

definition p_norm :: "real \<Rightarrow> real \<Rightarrow> real \<Rightarrow> real option" where
  "p_norm p a b =
     (if 0 < p then Some ((\<bar>a\<bar> powr p + \<bar>b\<bar> powr p) powr (1 / p)) else None)"

text \<open>
  The heap once the class definition has run: the five static constants at the
  references 0 to 4. Reference 5 is the first the allocator hands out.
\<close>

definition initial_heap :: heap where
  "initial_heap = static_init (\<lambda>_. \<lparr>x = Num 0, y = Num 0\<rparr>)"

section \<open>Rounding to binary64\<close>

lemma round_half_even_int: "round_half_even (of_int n) = n"
  by (simp add: round_half_even_def)

lemma round_half_even_small: "0 \<le> q \<Longrightarrow> q < 1 / 2 \<Longrightarrow> round_half_even q = 0"
proof -
  assume "0 \<le> q" and "q < 1 / 2"
  then have "\<lfloor>q\<rfloor> = 0" by (simp add: floor_eq_iff)
  then show ?thesis
    using \<open>q < 1 / 2\<close> by (simp add: round_half_even_def Let_def)
qed

lemma floor_log2_powi: "\<lfloor>log 2 (2 powi k)\<rfloor> = k"
proof -
  have "(2::real) powi k = 2 powr (of_int k)"
    by (simp add: powr_real_of_int')
  then show ?thesis by simp
qed

lemma powi_pos: "0 < (2 powi k :: real)"
  by simp

lemma round_double_powi_normal:
  assumes "- 1022 \<le> k" and "k \<le> 1023"
  shows "round_double (2 powi k) = Num (2 powi k)"
proof -
  have e: "max \<lfloor>log 2 \<bar>2 powi k :: real\<bar>\<rfloor> (- 1022) = k"
    using assms(1) by (simp add: floor_log2_powi)
  have q: "\<bar>2 powi k :: real\<bar> / 2 powi (k - 52) = of_int (2 ^ 52)"
    by (simp add: power_int_diff)
  have m: "of_int (2 ^ 52) * 2 powi (k - 52) = (2 powi k :: real)"
    by (simp add: power_int_diff)
  have "(2 powi k :: real) \<le> 2 powi 1023"
    using assms(2) by (intro power_int_increasing) simp_all
  also have "\<dots> < 2 ^ 1024" by simp
  finally have lt: "\<not> 2 ^ 1024 \<le> (2 powi k :: real)" by simp
  have nz: "(2::int) ^ 52 \<noteq> 0" by simp
  have pos: "\<not> (2 powi k :: real) < 0"
    using powi_pos [of k] by linarith
  show ?thesis
    unfolding round_double_def Let_def e q round_half_even_int m
    by (simp only: lt nz pos if_False)
qed

lemma round_double_powi_overflow:
  assumes "1024 \<le> k"
  shows "round_double (2 powi k) = PInf"
proof -
  have e: "max \<lfloor>log 2 \<bar>2 powi k :: real\<bar>\<rfloor> (- 1022) = k"
    using assms by (simp add: floor_log2_powi)
  have q: "\<bar>2 powi k :: real\<bar> / 2 powi (k - 52) = of_int (2 ^ 52)"
    by (simp add: power_int_diff)
  have m: "of_int (2 ^ 52) * 2 powi (k - 52) = (2 powi k :: real)"
    by (simp add: power_int_diff)
  have "(2::real) ^ 1024 = 2 powi 1024" by simp
  also have "\<dots> \<le> 2 powi k"
    using assms by (intro power_int_increasing) simp_all
  finally have ge: "2 ^ 1024 \<le> (2 powi k :: real)" .
  have pos: "\<not> (2 powi k :: real) < 0"
    using powi_pos [of k] by linarith
  show ?thesis
    unfolding round_double_def Let_def e q round_half_even_int m
    by (simp only: ge pos if_True inf_of_def if_False)
qed

lemma round_double_powi_underflow:
  assumes "k \<le> - 1076"
  shows "round_double (2 powi k) = Num 0"
proof -
  have e: "max \<lfloor>log 2 \<bar>2 powi k :: real\<bar>\<rfloor> (- 1022) = - 1022"
    using assms by (simp add: floor_log2_powi)
  have "\<bar>2 powi k :: real\<bar> / 2 powi (- 1022 - 52) = 2 powi (k + 1074)"
    by (simp add: power_int_diff power_int_add power_int_minus field_simps)
  moreover have "(2 powi (k + 1074) :: real) \<le> 2 powi (- 2)"
    using assms by (intro power_int_increasing) simp_all
  moreover have "0 < (2 powi (k + 1074) :: real)"
    by simp
  ultimately have q: "0 < \<bar>2 powi k :: real\<bar> / 2 powi (- 1022 - 52)"
    and q': "\<bar>2 powi k :: real\<bar> / 2 powi (- 1022 - 52) \<le> 1 / 4"
    by simp_all
  have n: "round_half_even (\<bar>2 powi k :: real\<bar> / 2 powi (- 1022 - 52)) = 0"
    using q q' by (intro round_half_even_small) linarith+
  have pos: "\<not> (2 powi k :: real) < 0"
    using powi_pos [of k] by linarith
  show ?thesis
    unfolding round_double_def Let_def e n
    using pos by (simp add: zero_of_def)
qed

lemma round_half_even_nearest:
  assumes "\<bar>q - of_int n\<bar> < 1 / 2"
  shows "round_half_even q = n"
proof (cases "of_int n \<le> q")
  case True
  then have "\<lfloor>q\<rfloor> = n"
    using assms by (simp add: floor_eq_iff; linarith)
  then show ?thesis
    using assms True by (simp add: round_half_even_def Let_def)
next
  case False
  then have f: "\<lfloor>q\<rfloor> = n - 1"
    using assms by (simp add: floor_eq_iff; linarith)
  have "1 / 2 < q - of_int (n - 1)"
    using assms False by (simp; linarith)
  then show ?thesis
    by (simp add: round_half_even_def Let_def f)
qed

lemma round_double_nearest:
  assumes "2 powi k \<le> r" and "r < 2 powi (k + 1)" and "- 1022 \<le> k" and "k \<le> 1022"
      and "\<bar>r / 2 powi (k - 52) - of_int n\<bar> < 1 / 2"
  shows "round_double r = Num (of_int n * 2 powi (k - 52))"
proof -
  let ?u = "2 powi (k - 52) :: real"
  have rpos: "0 < r"
    using assms(1) powi_pos [of k] by linarith
  have p2: "2 powr (1 + real_of_int k) = (2 powi (1 + k) :: real)"
    using powr_real_of_int' [of 2 "1 + k"] by simp
  have "\<lfloor>log 2 r\<rfloor> = k"
    using rpos assms(1,2) by (simp add: floor_log_eq_powr_iff powr_real_of_int' add.commute p2)
  then have e: "max \<lfloor>log 2 \<bar>r\<bar>\<rfloor> (- 1022) = k"
    using rpos assms(3) by simp
  have n: "round_half_even (\<bar>r\<bar> / ?u) = n"
    using rpos assms(5) by (intro round_half_even_nearest) simp
  have upos: "0 < ?u" by simp
  have "2 powi k / ?u \<le> r / ?u"
    using assms(1) by (intro divide_right_mono) simp_all
  moreover have "2 powi k / ?u = (2::real) ^ 52"
    by (simp add: power_int_diff)
  ultimately have lo: "(2::real) ^ 52 \<le> r / ?u" by simp
  have "r / ?u < 2 powi (k + 1) / ?u"
    using assms(2) by (intro divide_strict_right_mono) simp_all
  moreover have "2 powi (k + 1) / ?u = (2::real) ^ 53"
    by (simp add: power_int_diff power_int_add)
  ultimately have hi: "r / ?u < (2::real) ^ 53" by simp
  have nlo: "(2::real) ^ 52 - 1 / 2 < of_int n" and nhi: "of_int n < (2::real) ^ 53 + 1 / 2"
    using assms(5) lo hi by linarith+
  have "(2::int) ^ 52 \<le> n"
  proof -
    have "real_of_int (2 ^ 52 - 1) < of_int n" using nlo by simp
    then have "2 ^ 52 - 1 < n" by (simp only: of_int_less_iff)
    then show ?thesis by simp
  qed
  then have nz: "n \<noteq> 0" by simp
  have "n \<le> (2::int) ^ 53"
  proof -
    have "of_int n < real_of_int (2 ^ 53 + 1)" using nhi by simp
    then have "n < 2 ^ 53 + 1" by (simp only: of_int_less_iff)
    then show ?thesis by simp
  qed
  then have "real_of_int n \<le> 2 ^ 53" 
    by (metis of_int_le_iff of_int_numeral of_int_power)
  then have "of_int n * ?u \<le> 2 ^ 53 * ?u"
    using upos by (simp add: mult_right_mono)
  also have "\<dots> = 2 powi (k + 1)"
    by (simp add: power_int_diff power_int_add)
  also have "\<dots> \<le> 2 powi 1023"
    using assms(4) by (intro power_int_increasing) simp_all
  also have "\<dots> < (2::real) ^ 1024" by simp
  finally have lt: "\<not> 2 ^ 1024 \<le> of_int n * ?u" by simp
  have notneg: "\<not> r < 0" using rpos by simp
  show ?thesis
    unfolding round_double_def Let_def e n
    by (simp only: lt nz notneg if_False)
qed

lemma round_double_3: "round_double 3 = Num 3"
  using round_double_nearest [of 1 3 "3 * 2 ^ 51"] by simp

lemma round_double_5: "round_double 5 = Num 5"
  using round_double_nearest [of 2 5 "5 * 2 ^ 50"] by simp

lemma round_double_1: "round_double 1 = Num 1"
  using round_double_powi_normal [of 0] by simp

lemma round_double_2: "round_double 2 = Num 2"
  using round_double_powi_normal [of 1] by simp

lemma round_double_below_1: "round_double (1 - 2 powi (- 60)) = Num 1"
  using round_double_nearest [of "- 1" "1 - 2 powi (- 60)" "2 ^ 53"] by simp

lemma round_double_above_1: "round_double (1 + 2 powi (- 60)) = Num 1"
  using round_double_nearest [of 0 "1 + 2 powi (- 60)" "2 ^ 52"] by simp

section \<open>Exact real arithmetic\<close>

lemma exact_add: "num_add exact (Num a) (Num b) = Num (a + b)"
  by (simp add: num_add_def exact_def)

lemma exact_neg: "num_neg exact (Num a) = Num (- a)"
  by (simp add: num_neg_def exact_def)

lemma exact_sub: "num_sub exact (Num a) (Num b) = Num (a - b)"
  by (simp add: num_sub_def exact_neg exact_add)

lemma exact_mul: "num_mul exact (Num a) (Num b) = Num (a * b)"
  by (simp add: num_mul_def exact_def)

lemma exact_div: "b \<noteq> 0 \<Longrightarrow> num_div exact (Num a) (Num b) = Num (a / b)"
  by (simp add: num_div_def exact_def)

lemma exact_sqrt: "0 \<le> a \<Longrightarrow> Math_sqrt exact (Num a) = Num (sqrt a)"
  by (simp add: Math_sqrt_def exact_def)

lemma exact_sin: "Math_sin exact (Num a) = Num (sin a)"
  by (simp add: Math_sin_def exact_def)

lemma exact_cos: "Math_cos exact (Num a) = Num (cos a)"
  by (simp add: Math_cos_def exact_def)

lemma exact_acos: "- 1 \<le> a \<Longrightarrow> a \<le> 1 \<Longrightarrow> Math_acos exact (Num a) = Num (arccos a)"
  by (simp add: Math_acos_def exact_def)

lemma js_eq_Num: "js_eq (Num a) (Num b) \<longleftrightarrow> a = b"
  by (auto simp: js_eq_def)

lemmas exact_simps = exact_add exact_neg exact_sub exact_mul exact_div exact_sqrt exact_sin
  exact_cos exact_acos js_eq_Num

section \<open>Facts about the methods\<close>


lemma vec2_update_both: "v\<lparr>x := a, y := b\<rparr> = \<lparr>x = a, y = b\<rparr>"
  by (cases v) simp

lemma normalize_v_returns_this: "fst (normalize_v rd this h) = this"
  by (simp add: normalize_v_def scale_def Let_def)

lemma normalize_v_zero:
  "js_eq (mag rd this h) (Num 0) \<Longrightarrow> normalize_v rd this h = (this, h)"
  by (simp add: normalize_v_def)

lemma normalize_v_nonzero:
  "\<not> js_eq (mag rd this h) (Num 0) \<Longrightarrow>
   normalize_v rd this h = scale rd (num_div rd (Num 1) (mag rd this h)) this h"
  by (simp add: normalize_v_def)

lemma setMag_returns_this: "fst (setMag rd t this h) = this"
  by (simp add: setMag_def normalize_v_def scale_def Let_def)



subsection \<open>In exact real arithmetic, on finite components\<close>

lemma magSq_finite:
  "x (h this) = Num a \<Longrightarrow> y (h this) = Num b \<Longrightarrow> magSq exact this h = Num (a * a + b * b)"
  by (simp add: magSq_def exact_simps)

lemma mag_finite:
  "x (h this) = Num a \<Longrightarrow> y (h this) = Num b \<Longrightarrow>
   mag exact this h = Num (sqrt (a * a + b * b))"
  by (simp add: mag_def magSq_finite exact_simps)

lemma sqrt_sum_squares_zero_iff: "sqrt (a * a + b * b) = 0 \<longleftrightarrow> a = 0 \<and> b = 0"
  by (simp add: sum_squares_eq_zero_iff)

lemma mag_finite_zero_iff:
  "x (h this) = Num a \<Longrightarrow> y (h this) = Num b \<Longrightarrow>
   js_eq (mag exact this h) (Num 0) \<longleftrightarrow> a = 0 \<and> b = 0"
  by (simp add: mag_finite js_eq_Num sqrt_sum_squares_zero_iff)

lemma normalize_v_finite:
  assumes "x (h this) = Num a" and "y (h this) = Num b" and "a \<noteq> 0 \<or> b \<noteq> 0"
  shows "normalize_v exact this h =
    (this, h(this := \<lparr>x = Num (a / sqrt (a * a + b * b)), y = Num (b / sqrt (a * a + b * b))\<rparr>))"
proof -
  have nz: "sqrt (a * a + b * b) \<noteq> 0"
    using assms(3) by (simp add: sqrt_sum_squares_zero_iff)
  have "\<not> js_eq (mag exact this h) (Num 0)"
    using assms by (simp add: mag_finite_zero_iff)
  then have "normalize_v exact this h = scale exact (num_div exact (Num 1) (mag exact this h)) this h"
    by (rule normalize_v_nonzero)
  also have "\<dots> = scale exact (Num (1 / sqrt (a * a + b * b))) this h"
    using assms(1,2) by (simp only: mag_finite exact_div [OF nz])
  finally show ?thesis
    using assms(1,2) by (simp add: scale_def vec2_update_both exact_mul)
qed

lemma unit_magSq:
  fixes a b :: real
  assumes "a \<noteq> 0 \<or> b \<noteq> 0"
  shows "(a / sqrt (a * a + b * b) * t) * (a / sqrt (a * a + b * b) * t)
       + (b / sqrt (a * a + b * b) * t) * (b / sqrt (a * a + b * b) * t) = t * t"
proof -
  let ?n = "sqrt (a * a + b * b)"
  have pos: "0 < a * a + b * b"
    using assms by (metis sum_squares_gt_zero_iff)
  have nn: "?n * ?n = a * a + b * b"
    using pos by simp
  have "(a / ?n * t) * (a / ?n * t) + (b / ?n * t) * (b / ?n * t)
      = (a * a + b * b) * (t * t) / (?n * ?n)"
    by (simp add: add_divide_distrib ring_distribs nn ac_simps)
  also have "\<dots> = t * t"
    using pos by (auto simp: nn)
  finally show ?thesis .
qed

lemma setMag_finite:
  assumes "x (h this) = Num a" and "y (h this) = Num b" and "a \<noteq> 0 \<or> b \<noteq> 0"
  shows "setMag exact (Num t) this h =
    (this, h(this := \<lparr>x = Num (a / sqrt (a * a + b * b) * t),
                       y = Num (b / sqrt (a * a + b * b) * t)\<rparr>))"
  using assms
  by (simp add: setMag_def normalize_v_finite scale_def vec2_update_both exact_mul)

lemma setMag_finite_mag:
  assumes "x (h this) = Num a" and "y (h this) = Num b" and "a \<noteq> 0 \<or> b \<noteq> 0"
  shows "mag exact this (snd (setMag exact (Num t) this h)) = Num \<bar>t\<bar>"
proof -
  let ?h' = "snd (setMag exact (Num t) this h)"
  have "x (?h' this) = Num (a / sqrt (a * a + b * b) * t)"
   and "y (?h' this) = Num (b / sqrt (a * a + b * b) * t)"
    using assms by (simp_all add: setMag_finite)
  then have "mag exact this ?h' = Num (sqrt (t * t))"
    by (simp only: mag_finite unit_magSq [OF assms(3)])
  then show ?thesis by simp
qed


lemma dot_finite:
  "x (h this) = Num a \<Longrightarrow> y (h this) = Num b \<Longrightarrow> x (h dir) = Num c \<Longrightarrow> y (h dir) = Num d \<Longrightarrow>
   dot exact dir this h = Num (a * c + b * d)"
  by (simp add: dot_def exact_simps)


section \<open>Arithmetic on finite numbers, for any rounding\<close>

lemma num_mul_finite: "num_mul rd (Num a) (Num b) = rd ((a < 0) \<noteq> (b < 0)) (a * b)"
  by (simp add: num_mul_def)

lemma num_add_finite: "num_add rd (Num a) (Num b) = rd (a < 0 \<and> b < 0) (a + b)"
  by (simp add: num_add_def)

lemma double_zero: "double s 0 = zero_of s"
  by (simp add: double_def)

lemma double_nonzero: "r \<noteq> 0 \<Longrightarrow> double s r = round_double r"
  by (simp add: double_def)

section \<open>A vector whose squared magnitude overflows\<close>

lemma overflowing_magSq:
  assumes "x (h this) = Num B" and "y (h this) = Num 0" and "round_double (B * B) = PInf"
    and "B \<noteq> 0"
  shows "magSq double this h = PInf"
proof -
  have "num_mul double (Num B) (Num B) = PInf"
    using assms(3,4) by (simp add: num_mul_finite double_nonzero)
  moreover have "num_mul double (Num 0) (Num 0) = Num 0"
    by (simp add: num_mul_finite double_zero zero_of_def)
  ultimately show ?thesis
    by (simp add: magSq_def assms(1,2) num_add_def)
qed

lemma overflowing_normalize:
  assumes "x (h this) = Num B" and "y (h this) = Num 0" and "round_double (B * B) = PInf"
    and "0 < B"
  shows "normalize_v double this h = (this, h(this := \<lparr>x = Num 0, y = Num 0\<rparr>))"
proof -
  have "magSq double this h = PInf"
    using assms overflowing_magSq [of h this B] by auto
  then have m: "mag double this h = PInf"
    by (simp add: mag_def Math_sqrt_def)
  have f: "num_div double (Num 1) PInf = Num 0"
    by (simp add: num_div_def double_zero zero_of_def)
  have "num_mul double (Num B) (Num 0) = Num 0"
    using assms(4) by (simp add: num_mul_finite double_zero zero_of_def)
  moreover have "num_mul double (Num 0) (Num 0) = Num 0"
    by (simp add: num_mul_finite double_zero zero_of_def)
  ultimately show ?thesis
    using assms(1,2)
    by (simp add: normalize_v_def m js_eq_def f scale_def vec2_update_both)
qed

lemma overflowing_mag:
  assumes "x (h this) = Num B" and "y (h this) = Num 0" and "round_double (B * B) = PInf"
    and "B \<noteq> 0"
  shows "\<not> js_eq (mag double this h) (Num 0)"
  using assms overflowing_magSq [of h this B] by (simp add: mag_def Math_sqrt_def js_eq_def)

lemma zero_vector_mag:
  assumes "x (h this) = Num 0" and "y (h this) = Num 0"
  shows "mag double this h = Num 0"
  using assms
  by (simp add: mag_def magSq_def num_mul_finite num_add_finite double_zero zero_of_def
      Math_sqrt_def)

lemma negative_zero_vector_mag:
  assumes "x (h this) = NZero" and "y (h this) = NZero"
  shows "mag double this h = Num 0"
  using assms
  by (simp add: mag_def magSq_def num_mul_def num_add_def double_zero zero_of_def
      Math_sqrt_def)

lemma round_double_2_1200: "round_double (2 ^ 600 * 2 ^ 600) = PInf"
  using round_double_powi_overflow [of 1200] by simp


lemma overflowing_setMag:
  assumes "x (h this) = Num B" and "y (h this) = Num 0" and "round_double (B * B) = PInf"
    and "0 < B"
  shows "setMag double (Num t) this h
    = (this, h(this := \<lparr>x = double (t < 0) 0, y = double (t < 0) 0\<rparr>))"
proof -
  have "num_mul double (Num 0) (Num t) = double (t < 0) 0"
    by (simp add: num_mul_finite)
  then show ?thesis
    using assms
    by (simp add: setMag_def overflowing_normalize [of h this B] scale_def vec2_update_both)
qed

section \<open>A unit vector aligned with the receiver\<close>


section \<open>Zero vectors\<close>

lemma exact_zero: "is_zero (exact s 0)"
  by (simp add: exact_def)

lemma double_zero_is_zero: "is_zero (double s 0)"
  by (simp add: double_def zero_of_def)

lemma zero_times_finite:
  assumes "is_zero (rd True 0)" and "is_zero (rd False 0)"
      and "is_zero a" and "t \<noteq> NaN" and "\<not> is_inf t"
  shows "is_zero (num_mul rd a t)"
proof -
  have "real_of a * real_of t = 0"
    using assms(3) by (cases a) simp_all
  moreover have "a \<noteq> NaN" and "\<not> is_inf a"
    using assms(3) by (cases a; simp)+
  ultimately have "num_mul rd a t = rd (negative a \<noteq> negative t) 0"
    using assms(4,5) unfolding num_mul_def by (simp only: if_False simp_thms)
  then show ?thesis
    using assms(1,2) by (cases "negative a \<noteq> negative t") simp_all
qed

lemma zero_vector_mag_any:
  assumes "is_zero (rd True 0)" and "is_zero (rd False 0)"
      and "is_zero (x (h this))" and "is_zero (y (h this))"
  shows "js_eq (mag rd this h) (Num 0)"
proof -
  have zx: "is_zero (num_mul rd (x (h this)) (x (h this)))"
    using assms(1-3) by (intro zero_times_finite) (cases "x (h this)"; simp)+
  have zy: "is_zero (num_mul rd (y (h this)) (y (h this)))"
    using assms(1,2,4) by (intro zero_times_finite) (cases "y (h this)"; simp)+
  let ?p = "num_mul rd (x (h this)) (x (h this))" and ?q = "num_mul rd (y (h this)) (y (h this))"
  have "num_add rd ?p ?q = rd (negative ?p \<and> negative ?q) 0"
    using zx zy by (cases ?p; cases ?q; simp add: num_add_def)
  then have "is_zero (magSq rd this h)"
    unfolding magSq_def
    using assms(1,2) by (cases "negative ?p \<and> negative ?q") simp_all
  then have "is_zero (mag rd this h)"
    using assms(2) by (cases "magSq rd this h") (simp_all add: mag_def Math_sqrt_def)
  then show ?thesis
    by (cases "mag rd this h") (simp_all add: js_eq_def)
qed

section \<open>The smallest results of binary64 rounding\<close>

lemma round_half_even_nonneg: "0 \<le> q \<Longrightarrow> 0 \<le> round_half_even q"
proof -
  assume "0 \<le> q"
  then have "0 \<le> \<lfloor>q\<rfloor>" by simp
  then show ?thesis
    by (simp add: round_half_even_def Let_def)
qed

lemma round_half_even_ge_floor: "\<lfloor>q\<rfloor> \<le> round_half_even q"
  by (simp add: round_half_even_def Let_def)

lemma round_double_result_large:
  assumes "round_double z = Num r" and "r \<noteq> 0"
  shows "2 powi (- 1074) \<le> \<bar>r\<bar>"
proof -
  define e where "e = max \<lfloor>log 2 \<bar>z\<bar>\<rfloor> (- 1022)"
  define u :: real where "u = 2 powi (e - 52)"
  define n where "n = round_half_even (\<bar>z\<bar> / u)"
  have upos: "0 < u" by (simp add: u_def)
  have res: "round_double z =
      (if 2 ^ 1024 \<le> of_int n * u then inf_of (z < 0)
       else if n = 0 then zero_of (z < 0)
       else Num (if z < 0 then - (of_int n * u) else of_int n * u))"
    by (simp add: round_double_def Let_def e_def u_def n_def)
  have n0: "n \<noteq> 0" and r: "\<bar>r\<bar> = of_int n * u"
  proof -
    have "0 \<le> n"
      unfolding n_def using upos by (intro round_half_even_nonneg) simp
    with assms res show "n \<noteq> 0" and "\<bar>r\<bar> = of_int n * u"
      using upos by (auto simp: inf_of_def zero_of_def split: if_splits)
  qed
  have "0 \<le> n"
    unfolding n_def using upos by (intro round_half_even_nonneg) simp
  with n0 have "1 \<le> n" by simp
  then have "(1::real) \<le> of_int n" by simp
  then have "u \<le> of_int n * u"
    using upos by simp
  moreover have "2 powi (- 1074) \<le> u"
    unfolding u_def by (intro power_int_increasing) (simp_all add: e_def)
  ultimately show ?thesis
    using r by linarith
qed

lemma round_double_not_zero:
  assumes "2 powi (- 1022) \<le> z"
  shows "\<not> is_zero (round_double z)"
proof -
  have zpos: "0 < z"
    using assms powi_pos [of "- 1022"] by linarith
  define k where "k = \<lfloor>log 2 z\<rfloor>"
  have "log 2 (2 powi (- 1022)) \<le> log 2 z"
    using assms powi_pos [of "- 1022"] by (simp only: log_le_cancel_iff one_less_numeral_iff semiring_norm zpos)
  then have "\<lfloor>log 2 (2 powi (- 1022) :: real)\<rfloor> \<le> k"
    unfolding k_def by (rule floor_mono)
  then have kge: "- 1022 \<le> k"
    by (simp only: floor_log2_powi)
  have "2 powr (of_int k) \<le> z"
    using floor_log_eq_powr_iff [of z 2 k] zpos by (simp add: k_def)
  then have lo: "2 powi k \<le> z"
    by (simp add: powr_real_of_int')
  define u :: real where "u = 2 powi (k - 52)"
  define n where "n = round_half_even (\<bar>z\<bar> / u)"
  have upos: "0 < u" by (simp add: u_def)
  have "2 powi k / u \<le> z / u"
    using lo upos by (intro divide_right_mono) simp_all
  moreover have "2 powi k / u = (2::real) ^ 52"
    by (simp add: u_def power_int_diff)
  ultimately have "(2::real) ^ 52 \<le> z / u" by simp
  then have "(2::int) ^ 52 \<le> \<lfloor>z / u\<rfloor>"
    by (simp add: le_floor_iff)
  also have "\<dots> \<le> n"
    unfolding n_def using zpos by (simp add: round_half_even_ge_floor)
  finally have npos: "0 < n" by simp
  have e: "max \<lfloor>log 2 \<bar>z\<bar>\<rfloor> (- 1022) = k"
    using zpos kge by (simp add: k_def)
  have res: "round_double z =
      (if 2 ^ 1024 \<le> of_int n * u then inf_of (z < 0)
       else if n = 0 then zero_of (z < 0)
       else Num (if z < 0 then - (of_int n * u) else of_int n * u))"
    unfolding round_double_def Let_def e by (simp add: u_def n_def)
  have "u \<noteq> 0"
    using upos by simp
  then show ?thesis
    using npos zpos by (simp add: res inf_of_def)
qed

lemma num_add_double_large:
  assumes "num_add double p q = Num r" and "r \<noteq> 0"
  shows "2 powi (- 1074) \<le> \<bar>r\<bar>"
proof -
  have "round_double (real_of p + real_of q) = Num r"
    using assms
    by (auto simp: num_add_def double_def zero_of_def split: if_splits)
  then show ?thesis
    using assms(2) by (rule round_double_result_large)
qed

lemma sqrt_double_not_zero:
  assumes "2 powi (- 1074) \<le> r"
  shows "\<not> is_zero (Math_sqrt double (Num r))"
proof -
  have rpos: "0 < r"
    using assms powi_pos [of "- 1074"] by linarith
  have "(2 powi (- 1022))\<^sup>2 = (2 powi (- 2044) :: real)"
    by (simp add: power_int_minus power2_eq_square field_simps flip: power_add)
  also have "\<dots> \<le> 2 powi (- 1074)"
    by (intro power_int_increasing) simp_all
  finally have "(2 powi (- 1022))\<^sup>2 \<le> r"
    using assms by linarith
  then have "2 powi (- 1022) \<le> sqrt r"
    by (rule real_le_rsqrt)
  then have "\<not> is_zero (round_double (sqrt r))"
    by (rule round_double_not_zero)
  then show ?thesis
    using rpos by (simp add: Math_sqrt_def double_def)
qed

lemma mag_double_zero_magSq:
  assumes "js_eq (mag double v h) (Num 0)"
  shows "is_zero (magSq double v h)"
proof (cases "magSq double v h")
  case (Num r)
  show ?thesis
  proof (rule ccontr)
    assume nz: "\<not> is_zero (magSq double v h)"
    then have r0: "r \<noteq> 0" using Num by simp
    have "2 powi (- 1074) \<le> \<bar>r\<bar>"
      using Num r0 unfolding magSq_def by (rule num_add_double_large)
    moreover have "0 \<le> r"
      using assms Num by (auto simp: mag_def Math_sqrt_def js_eq_def split: if_splits)
    ultimately have "2 powi (- 1074) \<le> r" by simp
    then have "\<not> is_zero (mag double v h)"
      unfolding mag_def Num by (rule sqrt_double_not_zero)
    then show False
      using assms by (auto simp: js_eq_def)
  qed
next
  case NZero
  then show ?thesis by simp
qed (use assms in \<open>simp_all add: mag_def Math_sqrt_def js_eq_def\<close>)

section \<open>The quotient of \<^verbatim>\<open>angle\<close>\<close>

lemma zero_times_any:
  assumes "is_zero a \<or> is_zero b"
  shows "num_mul double a b = NaN \<or> is_zero (num_mul double a b)"
  using assms
  by (cases a; cases b) (auto simp: num_mul_def double_def zero_of_def inf_of_def)

lemma sqrt_zero_or_nan:
  assumes "s = NaN \<or> is_zero s"
  shows "Math_sqrt double s = NaN \<or> is_zero (Math_sqrt double s)"
  using assms by (cases s) (auto simp: Math_sqrt_def double_def zero_of_def)

lemma acos_quotient_by_zero:
  assumes "q = NaN \<or> is_zero q"
  shows "Math_acos double (num_div double d q) = NaN"
  using assms
  by (cases d; cases q)
     (auto simp: num_div_def Math_acos_def inf_of_def double_def zero_of_def)

lemma angle_zero_magSq:
  assumes "is_zero (magSq double v1 h) \<or> is_zero (magSq double v2 h)"
  shows "angle double v1 v2 h = NaN"
  unfolding angle_def
  by (intro acos_quotient_by_zero sqrt_zero_or_nan zero_times_any assms)

lemma cauchy_schwarz_2:
  fixes a b c d :: real
  shows "\<bar>a * c + b * d\<bar> \<le> sqrt ((a * a + b * b) * (c * c + d * d))"
proof -
  have "(a * c + b * d)\<^sup>2 + (a * d - b * c)\<^sup>2 = (a * a + b * b) * (c * c + d * d)"
    by (simp add: power2_eq_square algebra_simps)
  then have "(a * c + b * d)\<^sup>2 \<le> (a * a + b * b) * (c * c + d * d)"
    by (metis le_add_same_cancel1 zero_le_power2)
  then have "sqrt ((a * c + b * d)\<^sup>2) \<le> sqrt ((a * a + b * b) * (c * c + d * d))"
    by (rule real_sqrt_le_mono)
  then show ?thesis by simp
qed

lemma angle_finite:
  assumes "x (h v1) = Num a" and "y (h v1) = Num b"
      and "x (h v2) = Num c" and "y (h v2) = Num d"
      and "a \<noteq> 0 \<or> b \<noteq> 0" and "c \<noteq> 0 \<or> d \<noteq> 0"
  shows "angle exact v1 v2 h
      = Num (arccos ((a * c + b * d) / sqrt ((a * a + b * b) * (c * c + d * d))))"
    and "- 1 \<le> (a * c + b * d) / sqrt ((a * a + b * b) * (c * c + d * d))"
    and "(a * c + b * d) / sqrt ((a * a + b * b) * (c * c + d * d)) \<le> 1"
proof -
  let ?D = "sqrt ((a * a + b * b) * (c * c + d * d))"
  have "0 < a * a + b * b" and "0 < c * c + d * d"
    using assms(5,6) by (simp_all add: sum_squares_gt_zero_iff)
  then have prod: "0 < (a * a + b * b) * (c * c + d * d)"
    by (rule mult_pos_pos)
  then have D: "0 < ?D" by (simp only: real_sqrt_gt_0_iff)
  then have D0: "?D \<noteq> 0" by (rule less_imp_neq [THEN not_sym])
  have le: "\<bar>a * c + b * d\<bar> \<le> ?D" by (rule cauchy_schwarz_2)
  show lo: "- 1 \<le> (a * c + b * d) / ?D"
    using D le by (simp add: pos_le_divide_eq)
  show hi: "(a * c + b * d) / ?D \<le> 1"
    using D le by (simp add: pos_divide_le_eq)
  have "angle exact v1 v2 h = Math_acos exact (num_div exact (Num (a * c + b * d)) (Num ?D))"
    using assms(1-4) prod
    by (simp add: angle_def dot_finite magSq_finite exact_mul exact_sqrt less_imp_le)
  also have "\<dots> = Math_acos exact (Num ((a * c + b * d) / ?D))"
    by (simp only: exact_div [OF D0])
  finally show "angle exact v1 v2 h = Num (arccos ((a * c + b * d) / ?D))"
    using lo hi by (simp add: exact_acos)
qed

section \<open>Powers\<close>

lemma round_double_minus:
  assumes "0 < z" and "round_double z = Num r" and "r \<noteq> 0"
  shows "round_double (- z) = Num (- r)"
proof -
  define e where "e = max \<lfloor>log 2 \<bar>z\<bar>\<rfloor> (- 1022)"
  define u :: real where "u = 2 powi (e - 52)"
  define n where "n = round_half_even (\<bar>z\<bar> / u)"
  have pos: "round_double z =
      (if 2 ^ 1024 \<le> of_int n * u then inf_of (z < 0)
       else if n = 0 then zero_of (z < 0)
       else Num (if z < 0 then - (of_int n * u) else of_int n * u))"
    by (simp add: round_double_def Let_def e_def u_def n_def)
  have neg: "round_double (- z) =
      (if 2 ^ 1024 \<le> of_int n * u then inf_of (- z < 0)
       else if n = 0 then zero_of (- z < 0)
       else Num (if - z < 0 then - (of_int n * u) else of_int n * u))"
    by (simp add: round_double_def Let_def e_def u_def n_def)
  have "\<not> 2 ^ 1024 \<le> of_int n * u" and "n \<noteq> 0" and "r = of_int n * u"
    using assms pos by (auto simp: inf_of_def zero_of_def split: if_splits)
  then show ?thesis
    using assms(1) by (simp only: neg) simp
qed

lemma pow_one_double:
  assumes "0 < b" and "round_double b = Num b"
  shows "Math_pow double (Num b) (Num 1) = Num b"
  using assms by (simp add: Math_pow_def double_def)

lemma pow_one_double_neg:
  assumes "0 < b" and "round_double b = Num b"
  shows "Math_pow double (Num (- b)) (Num 1) = Num (- b)"
proof -
  have "round_double (- b) = Num (- b)"
    using assms by (intro round_double_minus) simp_all
  then show ?thesis
    using assms(1)
    by (simp add: Math_pow_def double_def is_integer_def is_odd_integer_def)
qed

lemma one_over_one_double: "num_div double (Num 1) (Num 1) = Num 1"
  using round_double_1 by (simp add: num_div_def double_def)

lemma norm_1_double:
  assumes "x (h this) = Num a" and "y (h this) = Num b"
      and "Math_pow double (Num a) (Num 1) = Num a" and "Math_pow double (Num b) (Num 1) = Num b"
      and "a + b \<noteq> 0" and "round_double (a + b) = Num s"
      and "Math_pow double (Num s) (Num 1) = Num s"
  shows "norm_v double (Some (Num 1)) this h = Num s"
proof -
  have "num_add double (Num a) (Num b) = Num s"
    using assms(5,6) by (simp add: num_add_finite double_nonzero)
  then show ?thesis
    unfolding norm_v_def Let_def dflt.simps assms(1,2) assms(3,4) one_over_one_double
    by (simp only: assms(7))
qed

section \<open>Signed powers\<close>

lemma Math_pow_pos:
  "e \<noteq> 0 \<Longrightarrow> 0 < n \<Longrightarrow> Math_pow exact (Num n) (Num e) = Num (n powr e)"
  by (simp add: Math_pow_def exact_def)

lemma Math_pow_neg_not_integer:
  "e \<noteq> 0 \<Longrightarrow> n < 0 \<Longrightarrow> \<not> is_integer e \<Longrightarrow> Math_pow exact (Num n) (Num e) = NaN"
  by (simp add: Math_pow_def)

lemma Math_pow_neg_odd:
  "e \<noteq> 0 \<Longrightarrow> n < 0 \<Longrightarrow> is_integer e \<Longrightarrow> \<not> is_even_integer e \<Longrightarrow>
   Math_pow exact (Num n) (Num e) = Num (- (\<bar>n\<bar> powr e))"
  by (simp add: Math_pow_def exact_def is_odd_integer_def is_even_integer_def)

lemma Math_pow_signed_finite:
  assumes "0 < e" and "is_integer e" and "\<not> is_even_integer e"
  shows "Math_pow exact (Num n) (Num e)
    = Num (if n < 0 then - (\<bar>n\<bar> powr e) else \<bar>n\<bar> powr e)"
  using assms by (auto simp: Math_pow_def exact_def is_odd_integer_def is_even_integer_def)

lemma Math_pow_neg_base:
  assumes "q \<noteq> 0" and "s < 0" and "\<not> is_even_integer q"
  shows "Math_pow exact (Num s) (Num q) = NaN
    \<or> (\<exists>r. r < 0 \<and> Math_pow exact (Num s) (Num q) = Num r)"
proof (cases "is_integer q")
  case False
  then show ?thesis using assms by (simp add: Math_pow_neg_not_integer)
next
  case True
  with assms(1,2) have "Math_pow exact (Num s) (Num q) = Num (- (\<bar>s\<bar> powr q))"
    using assms(3) by (rule Math_pow_neg_odd)
  moreover have "- (\<bar>s\<bar> powr q) < 0"
    using assms(2) by simp
  ultimately show ?thesis by blast
qed

lemma powr_base_inj:
  fixes s t q :: real
  assumes "0 < s" and "0 < t" and "q \<noteq> 0" and "s powr q = t powr q"
  shows "s = t"
proof -
  have "(s powr q) powr (1 / q) = (t powr q) powr (1 / q)"
    using assms(4) by simp
  then show ?thesis
    using assms(1-3) by (simp add: powr_powr)
qed

lemma reciprocal_of_integer_not_even:
  assumes "is_integer e" and "e \<noteq> 0"
  shows "\<not> is_even_integer (1 / e)"
proof
  assume ev: "is_even_integer (1 / e)"
  define k where "k = \<lfloor>e\<rfloor>"
  define j where "j = \<lfloor>1 / e\<rfloor>"
  have e: "e = of_int k"
    using assms(1) unfolding is_integer_def k_def by (rule sym)
  have q: "1 / e = of_int j"
    using ev unfolding is_even_integer_def is_integer_def j_def by (simp only:)
  have "even j"
    using ev unfolding is_even_integer_def j_def by (simp only:)
  have "(of_int (j * k) :: real) = 1"
    using q e assms(2) by (simp add: field_simps)
  then have "j * k = 1"
    using of_int_eq_1_iff by blast
  then have "odd j"
    by (metis dvd_mult2 odd_one)
  with \<open>even j\<close> show False by simp
qed

lemma norm_v_differs:
  assumes "x (h this) = Num a" and "y (h this) = Num b"
      and "a < 0 \<or> b < 0" and "\<not> is_even_integer e" and "0 < e"
  shows "norm_v exact (Some (Num e)) this h \<noteq> Num ((\<bar>a\<bar> powr e + \<bar>b\<bar> powr e) powr (1 / e))"
proof -
  let ?q = "1 / e"
  let ?T = "\<bar>a\<bar> powr e + \<bar>b\<bar> powr e"
  have e0: "e \<noteq> 0" using assms(5) by simp
  then have q0: "?q \<noteq> 0" by simp
  have Tpos: "0 < ?T"
  proof -
    have "0 \<le> \<bar>a\<bar> powr e" and "0 \<le> \<bar>b\<bar> powr e" by simp_all
    moreover have "0 < \<bar>a\<bar> powr e \<or> 0 < \<bar>b\<bar> powr e"
      using assms(3) by auto
    ultimately show ?thesis by linarith
  qed
  have recip: "num_div exact (Num 1) (Num e) = Num ?q"
    using e0 by (rule exact_div)
  have root_pos: "0 < ?T powr ?q"
    using Tpos by simp
  have code: "norm_v exact (Some (Num e)) this h
      = Math_pow exact (num_add exact (Math_pow exact (Num a) (Num e)) (Math_pow exact (Num b) (Num e)))
          (Num ?q)"
    by (simp only: norm_v_def assms(1,2) dflt.simps Let_def recip)
  show ?thesis
  proof (cases "is_integer e")
    case False
    have "Math_pow exact (Num a) (Num e) = NaN \<or> Math_pow exact (Num b) (Num e) = NaN"
      using assms(3) e0 False by (auto simp: Math_pow_neg_not_integer)
    then have "num_add exact (Math_pow exact (Num a) (Num e)) (Math_pow exact (Num b) (Num e)) = NaN"
      by (auto simp: num_add_def)
    then have "norm_v exact (Some (Num e)) this h = NaN"
      using q0 by (simp only: code) (simp add: Math_pow_def)
    then show ?thesis by simp
  next
    case True
    let ?sa = "if a < 0 then - (\<bar>a\<bar> powr e) else \<bar>a\<bar> powr e"
    let ?sb = "if b < 0 then - (\<bar>b\<bar> powr e) else \<bar>b\<bar> powr e"
    let ?S = "?sa + ?sb"
    have sum: "num_add exact (Math_pow exact (Num a) (Num e)) (Math_pow exact (Num b) (Num e))
        = Num ?S"
      by (simp only: Math_pow_signed_finite [OF assms(5) True assms(4)] exact_add)
    have less: "?S < ?T"
    proof -
      have "?sa \<le> \<bar>a\<bar> powr e" and "?sb \<le> \<bar>b\<bar> powr e" by simp_all
      moreover have "?sa < \<bar>a\<bar> powr e \<or> ?sb < \<bar>b\<bar> powr e"
        using assms(3) by auto
      ultimately show ?thesis by linarith
    qed
    have nev: "\<not> is_even_integer ?q"
      using True e0 by (rule reciprocal_of_integer_not_even)
    have code': "norm_v exact (Some (Num e)) this h = Math_pow exact (Num ?S) (Num ?q)"
      by (simp only: code sum)
    consider (neg) "?S < 0" | (zero) "?S = 0" | (pos) "0 < ?S" by linarith
    then show ?thesis
    proof cases
      case neg
      from Math_pow_neg_base [OF q0 neg nev]
      have "norm_v exact (Some (Num e)) this h = NaN
          \<or> (\<exists>r. r < 0 \<and> norm_v exact (Some (Num e)) this h = Num r)"
        by (simp only: code')
      then show ?thesis
        using root_pos by auto
    next
      case zero
      have "Math_pow exact (Num 0) (Num ?q) = Num 0"
        using assms(5) by (simp add: Math_pow_def)
      then have "norm_v exact (Some (Num e)) this h = Num 0"
        by (simp only: code' zero)
      then show ?thesis
        using root_pos by auto
    next
      case pos
      have "norm_v exact (Some (Num e)) this h = Num (?S powr ?q)"
        unfolding code' using q0 pos by (rule Math_pow_pos)
      moreover have "?S powr ?q \<noteq> ?T powr ?q"
      proof
        assume "?S powr ?q = ?T powr ?q"
        with pos Tpos q0 have "?S = ?T" by (rule powr_base_inj)
        moreover have "?S \<noteq> ?T" using less by (rule less_imp_neq)
        ultimately show False by blast
      qed
      ultimately show ?thesis by simp
    qed
  qed
qed

section \<open>Rotation\<close>

lemma rotation_expand:
  fixes p q s c :: real
  shows "(p * c - q * s) * (p * c - q * s) + (p * s + q * c) * (p * s + q * c)
       = (p * p + q * q) * (s * s + c * c)"
  by (simp add: algebra_simps)

lemma rotation_magSq:
  fixes p q a :: real
  shows "(p * cos a - q * sin a) * (p * cos a - q * sin a)
       + (p * sin a + q * cos a) * (p * sin a + q * cos a) = p * p + q * q"
proof -
  have "sin a * sin a + cos a * cos a = 1"
    using sin_cos_squared_add [of a] by (simp add: power2_eq_square)
  then show ?thesis
    by (simp only: rotation_expand mult_1_right)
qed

lemma rotateAround_finite:
  assumes "x (h this) = Num vx" and "y (h this) = Num vy"
      and "x (h (case origin of None \<Rightarrow> ORIGIN | Some r \<Rightarrow> r)) = Num ox"
      and "y (h (case origin of None \<Rightarrow> ORIGIN | Some r \<Rightarrow> r)) = Num oy"
  shows "rotateAround exact (Num a) origin this h =
    (this, h(this := \<lparr>x = Num ((vx - ox) * cos a - (vy - oy) * sin a + ox),
                       y = Num ((vx - ox) * sin a + (vy - oy) * cos a + oy)\<rparr>))"
  using assms
  by (simp add: rotateAround_def set_v_def vec2_update_both exact_simps Let_def)

lemma sub_finite:
  assumes "x (h this) = Num a" and "y (h this) = Num b"
      and "x (h other) = Num c" and "y (h other) = Num d"
  shows "sub exact other this h = (this, h(this := \<lparr>x = Num (a - c), y = Num (b - d)\<rparr>))"
  using assms by (simp add: sub_def translate_def vec2_update_both exact_simps)

section \<open>The error of binary64 rounding\<close>

lemma round_half_even_error: "\<bar>of_int (round_half_even q) - q\<bar> \<le> 1 / 2"
proof -
  have "of_int \<lfloor>q\<rfloor> \<le> q" and "q < of_int \<lfloor>q\<rfloor> + 1"
    by linarith+
  then show ?thesis
    by (auto simp: round_half_even_def Let_def)
qed

lemma floor_log2_less:
  assumes "0 < r" and "r < 2 powi k"
  shows "\<lfloor>log 2 r\<rfloor> < k"
proof -
  have "(2 powi k :: real) = 2 powr (of_int k)"
    by (simp add: powr_real_of_int')
  then have "r < 2 powr (of_int k)"
    using assms(2) by simp
  then have "log 2 r < of_int k"
    using assms(1) by (simp add: log_less_iff)
  then show ?thesis
    by (simp add: floor_less_iff)
qed

lemma round_double_error:
  assumes "r \<noteq> 0" and "\<bar>r\<bar> < 2 powi 1023"
  shows "is_finite (round_double r)"
    and "\<bar>real_of (round_double r) - r\<bar> \<le> 2 powi (max \<lfloor>log 2 \<bar>r\<bar>\<rfloor> (- 1022) - 53)"
    and "0 < r \<Longrightarrow> 0 \<le> real_of (round_double r)"
    and "r < 0 \<Longrightarrow> real_of (round_double r) \<le> 0"
proof -
  define e where "e = max \<lfloor>log 2 \<bar>r\<bar>\<rfloor> (- 1022)"
  define u :: real where "u = 2 powi (e - 52)"
  define n where "n = round_half_even (\<bar>r\<bar> / u)"
  define m where "m = of_int n * u"
  have upos: "0 < u" by (simp add: u_def)
  have res: "round_double r =
      (if 2 ^ 1024 \<le> m then inf_of (r < 0)
       else if n = 0 then zero_of (r < 0)
       else Num (if r < 0 then - m else m))"
    by (simp add: round_double_def Let_def e_def u_def n_def m_def)
  have npos: "0 \<le> n"
    unfolding n_def using upos by (intro round_half_even_nonneg) simp
  then have mpos: "0 \<le> m"
    using upos by (simp add: m_def)
  have half: "u / 2 = 2 powi (e - 53)"
    by (simp add: u_def power_int_diff)
  have "\<bar>of_int n - \<bar>r\<bar> / u\<bar> \<le> 1 / 2"
    unfolding n_def by (rule round_half_even_error)
  then have "\<bar>of_int n - \<bar>r\<bar> / u\<bar> * u \<le> 1 / 2 * u"
    using upos by (intro mult_right_mono) simp_all
  moreover have "\<bar>of_int n - \<bar>r\<bar> / u\<bar> * u = \<bar>m - \<bar>r\<bar>\<bar>"
  proof -
    have "\<bar>of_int n - \<bar>r\<bar> / u\<bar> * u = \<bar>(of_int n - \<bar>r\<bar> / u) * u\<bar>"
      using upos by (simp add: abs_mult)
    also have "(of_int n - \<bar>r\<bar> / u) * u = m - \<bar>r\<bar>"
      using upos by (simp add: m_def field_simps)
    finally show ?thesis .
  qed
  ultimately have err: "\<bar>m - \<bar>r\<bar>\<bar> \<le> 2 powi (e - 53)"
    using half by simp
  have ele: "e \<le> 1022"
  proof -
    have "\<lfloor>log 2 \<bar>r\<bar>\<rfloor> < 1023"
      using assms by (intro floor_log2_less) simp_all
    then show ?thesis by (simp add: e_def)
  qed
  have "(2 powi (e - 53) :: real) \<le> 2 powi 969"
    using ele by (intro power_int_increasing) simp_all
  then have "m \<le> \<bar>r\<bar> + 2 powi 969"
    using err by linarith
  also have "\<dots> < 2 powi 1023 + 2 powi 969"
    using assms(2) by simp
  also have "\<dots> \<le> 2 powi 1023 + (2 powi 1023 :: real)"
    by (intro add_left_mono power_int_increasing) simp_all
  also have "\<dots> = 2 ^ 1024"
    by simp
  finally have nov: "\<not> 2 ^ 1024 \<le> m" by simp
  have res': "round_double r = (if n = 0 then zero_of (r < 0) else Num (if r < 0 then - m else m))"
    by (simp only: res nov if_False)
  have m0: "n = 0 \<Longrightarrow> m = 0"
    by (simp add: m_def)
  show "is_finite (round_double r)"
    by (simp add: res' is_finite_def zero_of_def)
  have val: "real_of (round_double r) = (if r < 0 then - m else m)"
    using m0 by (auto simp: res' zero_of_def)
  show "\<bar>real_of (round_double r) - r\<bar> \<le> 2 powi (max \<lfloor>log 2 \<bar>r\<bar>\<rfloor> (- 1022) - 53)"
    using err unfolding val e_def [symmetric] by (auto simp: abs_if split: if_splits)
  show "0 < r \<Longrightarrow> 0 \<le> real_of (round_double r)"
    using mpos by (simp add: val)
  show "r < 0 \<Longrightarrow> real_of (round_double r) \<le> 0"
    using mpos by (simp add: val)
qed

lemma floor_log2_ge:
  assumes "2 powi k \<le> r"
  shows "k \<le> \<lfloor>log 2 r\<rfloor>"
proof -
  have rpos: "0 < r"
    using assms powi_pos [of k] by linarith
  have "log 2 (2 powi k) \<le> log 2 r"
    using assms powi_pos [of k] rpos by simp
  then have "\<lfloor>log 2 (2 powi k :: real)\<rfloor> \<le> \<lfloor>log 2 r\<rfloor>"
    by (rule floor_mono)
  then show ?thesis
    by (simp only: floor_log2_powi)
qed

lemma powi_floor_log2_le:
  assumes "0 < r"
  shows "2 powi \<lfloor>log 2 r\<rfloor> \<le> r"
proof -
  have "2 powr (of_int \<lfloor>log 2 r\<rfloor>) \<le> r"
    using floor_log_eq_powr_iff [of r 2 "\<lfloor>log 2 r\<rfloor>"] assms by simp
  then show ?thesis
    by (simp add: powr_real_of_int')
qed

text \<open>In the normal range the error is relative, at most \<^verbatim>\<open>2^-53\<close> of the value.\<close>

lemma round_double_normal:
  assumes "2 powi (- 1022) \<le> \<bar>r\<bar>" and "\<bar>r\<bar> < 2 powi 1023"
  shows "\<bar>real_of (round_double r) - r\<bar> \<le> 2 powi (- 53) * \<bar>r\<bar>"
proof -
  have r0: "r \<noteq> 0"
    using assms(1) powi_pos [of "- 1022"] by auto
  define k where "k = \<lfloor>log 2 \<bar>r\<bar>\<rfloor>"
  have kge: "- 1022 \<le> k"
    unfolding k_def using assms(1) by (rule floor_log2_ge)
  have lo: "2 powi k \<le> \<bar>r\<bar>"
    unfolding k_def using r0 by (intro powi_floor_log2_le) simp
  have "\<bar>real_of (round_double r) - r\<bar> \<le> 2 powi (max k (- 1022) - 53)"
    unfolding k_def using r0 assms(2) by (rule round_double_error)
  also have "max k (- 1022) = k"
    using kge by simp
  also have "(2 powi (k - 53) :: real) = 2 powi (- 53) * 2 powi k"
    by (simp add: power_int_diff power_int_minus field_simps)
  also have "\<dots> \<le> 2 powi (- 53) * \<bar>r\<bar>"
    using lo by (intro mult_left_mono) simp_all
  finally show ?thesis .
qed

text \<open>Below it the error is absolute, at most half the spacing of the subnormals.\<close>

lemma round_double_subnormal:
  assumes "r \<noteq> 0" and "\<bar>r\<bar> < 2 powi (- 1022)"
  shows "\<bar>real_of (round_double r) - r\<bar> \<le> 2 powi (- 1075)"
proof -
  have "\<bar>r\<bar> < 2 powi 1023"
  proof -
    have "(2 powi (- 1022) :: real) \<le> 2 powi 1023"
      by (intro power_int_increasing) simp_all
    then show ?thesis using assms(2) by linarith
  qed
  with assms(1) have "\<bar>real_of (round_double r) - r\<bar> \<le> 2 powi (max \<lfloor>log 2 \<bar>r\<bar>\<rfloor> (- 1022) - 53)"
    by (rule round_double_error)
  moreover have "\<lfloor>log 2 \<bar>r\<bar>\<rfloor> < - 1022"
    using assms by (intro floor_log2_less) simp_all
  ultimately show ?thesis
    by (simp add: max_def)
qed

lemma double_is_finite:
  assumes "\<bar>r\<bar> < 2 powi 1023"
  shows "is_finite (double s r)"
proof (cases "r = 0")
  case True
  then show ?thesis by (simp add: double_def zero_of_def is_finite_def)
next
  case False
  then show ?thesis
    using assms by (simp add: double_def round_double_error(1))
qed

lemma double_error:
  assumes "\<bar>r\<bar> < 2 powi 1023"
  shows "\<bar>real_of (double s r) - r\<bar> \<le> 2 powi (- 53) * \<bar>r\<bar> + 2 powi (- 1075)"
proof (cases "r = 0")
  case True
  then show ?thesis by (simp add: double_def zero_of_def)
next
  case False
  then have d: "double s r = round_double r"
    by (simp add: double_def)
  have e0: "0 \<le> 2 powi (- 53) * \<bar>r\<bar>" and n0: "(0::real) \<le> 2 powi (- 1075)"
    by simp_all
  show ?thesis
  proof (cases "2 powi (- 1022) \<le> \<bar>r\<bar>")
    case True
    then have "\<bar>real_of (round_double r) - r\<bar> \<le> 2 powi (- 53) * \<bar>r\<bar>"
      using assms by (rule round_double_normal)
    then show ?thesis
      unfolding d using n0 by linarith
  next
    case False
    then have "\<bar>r\<bar> < 2 powi (- 1022)" by simp
    with \<open>r \<noteq> 0\<close> have "\<bar>real_of (round_double r) - r\<bar> \<le> 2 powi (- 1075)"
      by (rule round_double_subnormal)
    then show ?thesis
      unfolding d using e0 by linarith
  qed
qed

lemma double_error_normal:
  assumes "2 powi (- 1022) \<le> \<bar>r\<bar>" and "\<bar>r\<bar> < 2 powi 1023"
  shows "\<bar>real_of (double s r) - r\<bar> \<le> 2 powi (- 53) * \<bar>r\<bar>"
proof -
  have "r \<noteq> 0"
    using assms(1) powi_pos [of "- 1022"] by auto
  then have "double s r = round_double r"
    by (simp add: double_def)
  then show ?thesis
    using round_double_normal [OF assms] by simp
qed

lemma double_nonneg:
  assumes "0 \<le> r" and "\<bar>r\<bar> < 2 powi 1023"
  shows "0 \<le> real_of (double s r)"
proof (cases "r = 0")
  case True
  then show ?thesis by (simp add: double_def zero_of_def)
next
  case False
  then have "0 < r" using assms(1) by simp
  then have "0 \<le> real_of (round_double r)"
    using False assms(2) round_double_error(3) by blast
  then show ?thesis
    using False by (simp add: double_def)
qed

subsection \<open>The operations on finite numbers\<close>

lemma num_mul_is_finite:
  "is_finite a \<Longrightarrow> is_finite b \<Longrightarrow>
   num_mul rd a b = rd (negative a \<noteq> negative b) (real_of a * real_of b)"
  by (simp add: num_mul_def is_finite_def)

lemma num_add_is_finite:
  "is_finite a \<Longrightarrow> is_finite b \<Longrightarrow>
   num_add rd a b = rd (negative a \<and> negative b) (real_of a + real_of b)"
  by (simp add: num_add_def is_finite_def)

lemma num_div_is_finite:
  "is_finite a \<Longrightarrow> is_finite b \<Longrightarrow> real_of b \<noteq> 0 \<Longrightarrow>
   num_div rd a b = rd (negative a \<noteq> negative b) (real_of a / real_of b)"
  by (cases b) (auto simp: num_div_def is_finite_def)

lemma Math_sqrt_is_finite:
  "is_finite a \<Longrightarrow> 0 < real_of a \<Longrightarrow> Math_sqrt rd a = rd False (sqrt (real_of a))"
  by (cases a) (auto simp: Math_sqrt_def is_finite_def)

lemma is_finite_Num: "is_finite a \<Longrightarrow> real_of a \<noteq> 0 \<Longrightarrow> a = Num (real_of a)"
  by (cases a) (auto simp: is_finite_def)

subsection \<open>Relative errors\<close>

lemma rel_trans:
  fixes x y z e1 e2 :: real
  assumes "\<bar>y - x\<bar> \<le> e1 * \<bar>x\<bar>" and "\<bar>z - y\<bar> \<le> e2 * \<bar>y\<bar>" and "0 \<le> e2"
  shows "\<bar>z - x\<bar> \<le> (e1 + e2 + e1 * e2) * \<bar>x\<bar>"
proof -
  have "\<bar>y\<bar> \<le> \<bar>x\<bar> + e1 * \<bar>x\<bar>"
    using assms(1) by linarith
  then have "e2 * \<bar>y\<bar> \<le> e2 * (\<bar>x\<bar> + e1 * \<bar>x\<bar>)"
    using assms(3) by (rule mult_left_mono)
  then have "\<bar>z - y\<bar> \<le> e2 * \<bar>x\<bar> + e1 * e2 * \<bar>x\<bar>"
    using assms(2) by (simp add: algebra_simps)
  then have "\<bar>z - x\<bar> \<le> e1 * \<bar>x\<bar> + e2 * \<bar>x\<bar> + e1 * e2 * \<bar>x\<bar>"
    using assms(1) by linarith
  then show ?thesis
    by (simp add: algebra_simps)
qed

lemma rel_weaken:
  fixes x y e e' :: real
  assumes "\<bar>y - x\<bar> \<le> e * \<bar>x\<bar>" and "e \<le> e'"
  shows "\<bar>y - x\<bar> \<le> e' * \<bar>x\<bar>"
proof -
  have "e * \<bar>x\<bar> \<le> e' * \<bar>x\<bar>"
    using assms(2) by (intro mult_right_mono) simp_all
  then show ?thesis
    using assms(1) by linarith
qed

lemma rel_sqrt:
  fixes x x' e :: real
  assumes "0 \<le> x" and "0 \<le> x'" and "\<bar>x' - x\<bar> \<le> e * x"
  shows "\<bar>sqrt x' - sqrt x\<bar> \<le> e * sqrt x"
proof (cases "x = 0")
  case True
  then have "x' = 0" using assms(3) by simp
  then show ?thesis using True by simp
next
  case False
  then have xpos: "0 < x" using assms(1) by simp
  then have spos: "0 < sqrt x" by simp
  have s'pos: "0 \<le> sqrt x'" using assms(2) by simp
  have prod: "(sqrt x' - sqrt x) * (sqrt x' + sqrt x) = x' - x"
    using assms(1,2) by (simp add: algebra_simps)
  have "\<bar>sqrt x' - sqrt x\<bar> * sqrt x \<le> \<bar>sqrt x' - sqrt x\<bar> * (sqrt x' + sqrt x)"
    using s'pos by (intro mult_left_mono) simp_all
  also have "\<dots> = \<bar>(sqrt x' - sqrt x) * (sqrt x' + sqrt x)\<bar>"
    using s'pos spos by (simp add: abs_mult)
  also have "\<dots> = \<bar>x' - x\<bar>"
    by (simp only: prod)
  also have "\<dots> \<le> e * x"
    by (rule assms(3))
  also have "\<dots> = e * sqrt x * sqrt x"
    using assms(1) by simp
  finally have "\<bar>sqrt x' - sqrt x\<bar> * sqrt x \<le> (e * sqrt x) * sqrt x" .
  then show ?thesis
    using spos by (simp only: mult_le_cancel_right_pos)
qed

lemma rel_inverse:
  fixes x x' e :: real
  assumes "x \<noteq> 0" and "\<bar>x' - x\<bar> \<le> e * \<bar>x\<bar>" and "e \<le> 1 / 2"
  shows "x' \<noteq> 0" and "\<bar>1 / x' - 1 / x\<bar> \<le> 2 * e * \<bar>1 / x\<bar>"
proof -
  have xpos: "0 < \<bar>x\<bar>" using assms(1) by simp
  have "e * \<bar>x\<bar> \<le> 1 / 2 * \<bar>x\<bar>"
    using assms(3) by (intro mult_right_mono) simp_all
  then have half: "\<bar>x\<bar> / 2 \<le> \<bar>x'\<bar>"
    using assms(2) by linarith
  then have x'pos: "0 < \<bar>x'\<bar>" using xpos by linarith
  then show "x' \<noteq> 0" by simp
  then have "1 / x' - 1 / x = (x - x') / (x' * x)"
    using assms(1) by (simp add: field_simps)
  then have "\<bar>1 / x' - 1 / x\<bar> = \<bar>x' - x\<bar> / (\<bar>x'\<bar> * \<bar>x\<bar>)"
    by (simp add: abs_mult abs_minus_commute)
  also have "\<dots> \<le> (e * \<bar>x\<bar>) / (\<bar>x'\<bar> * \<bar>x\<bar>)"
    using assms(2) x'pos xpos by (intro divide_right_mono) simp_all
  also have "\<dots> = e / \<bar>x'\<bar>"
    using xpos by simp
  finally have "\<bar>1 / x' - 1 / x\<bar> \<le> e / \<bar>x'\<bar>" .
  moreover have "0 \<le> e"
  proof -
    have "0 \<le> e * \<bar>x\<bar>" using assms(2) by linarith
    then show ?thesis using xpos by (simp add: zero_le_mult_iff)
  qed
  then have "e / \<bar>x'\<bar> \<le> e / (\<bar>x\<bar> / 2)"
    using half xpos by (intro divide_left_mono) simp_all
  moreover have "e / (\<bar>x\<bar> / 2) = 2 * e * \<bar>1 / x\<bar>"
    by simp
  ultimately show "\<bar>1 / x' - 1 / x\<bar> \<le> 2 * e * \<bar>1 / x\<bar>"
    by linarith
qed

lemma sum_error:
  fixes p q A B e n :: real
  assumes "\<bar>p - A\<bar> \<le> e * A + n" and "\<bar>q - B\<bar> \<le> e * B + n" and "2 * n \<le> e * (A + B)"
  shows "\<bar>(p + q) - (A + B)\<bar> \<le> 2 * e * (A + B)"
proof -
  have "\<bar>(p + q) - (A + B)\<bar> \<le> \<bar>p - A\<bar> + \<bar>q - B\<bar>"
    by linarith
  also have "\<dots> \<le> e * A + e * B + 2 * n"
    using assms(1,2) by linarith
  also have "\<dots> \<le> e * (A + B) + e * (A + B)"
    using assms(3) by (simp add: algebra_simps)
  finally show ?thesis by simp
qed

section \<open>The magnitude in binary64 arithmetic\<close>

lemma square_bounds:
  fixes a b :: real
  assumes "2 powi (- 510) \<le> max \<bar>a\<bar> \<bar>b\<bar>" and "max \<bar>a\<bar> \<bar>b\<bar> \<le> 2 powi 510"
  shows "a * a \<le> 2 powi 1020" and "b * b \<le> 2 powi 1020"
    and "2 powi (- 1020) \<le> a * a + b * b" and "a * a + b * b \<le> 2 powi 1021"
proof -
  have a: "\<bar>a\<bar> \<le> 2 powi 510" and b: "\<bar>b\<bar> \<le> 2 powi 510"
    using assms(2) by simp_all
  have "\<bar>a\<bar> * \<bar>a\<bar> \<le> 2 powi 510 * 2 powi 510"
    using a by (intro mult_mono) simp_all
  also have "(2 powi 510 * 2 powi 510 :: real) = 2 powi 1020"
    by (simp flip: power_int_add)
  finally show aa: "a * a \<le> 2 powi 1020" by simp
  have "\<bar>b\<bar> * \<bar>b\<bar> \<le> 2 powi 510 * 2 powi 510"
    using b by (intro mult_mono) simp_all
  also have "(2 powi 510 * 2 powi 510 :: real) = 2 powi 1020"
    by (simp flip: power_int_add)
  finally show bb: "b * b \<le> 2 powi 1020" by simp
  have "(2 powi 1020 :: real) + 2 powi 1020 = 2 powi 1021"
    by simp
  then show "a * a + b * b \<le> 2 powi 1021"
    using aa bb by linarith
  have sq: "(2 powi (- 510) * 2 powi (- 510) :: real) = 2 powi (- 1020)"
    by (simp flip: power_int_add)
  have "2 powi (- 510) \<le> \<bar>a\<bar> \<or> 2 powi (- 510) \<le> \<bar>b\<bar>"
    using assms(1) by (simp add: le_max_iff_disj)
  then show "2 powi (- 1020) \<le> a * a + b * b"
  proof
    assume "2 powi (- 510) \<le> \<bar>a\<bar>"
    then have "2 powi (- 510) * 2 powi (- 510) \<le> \<bar>a\<bar> * \<bar>a\<bar>"
      by (intro mult_mono) simp_all
    then have "2 powi (- 1020) \<le> a * a"
      by (simp only: sq abs_mult_self_eq)
    moreover have "0 \<le> b * b" by simp
    ultimately show ?thesis by linarith
  next
    assume "2 powi (- 510) \<le> \<bar>b\<bar>"
    then have "2 powi (- 510) * 2 powi (- 510) \<le> \<bar>b\<bar> * \<bar>b\<bar>"
      by (intro mult_mono) simp_all
    then have "2 powi (- 1020) \<le> b * b"
      by (simp only: sq abs_mult_self_eq)
    moreover have "0 \<le> a * a" by simp
    ultimately show ?thesis by linarith
  qed
qed

lemma mag_double_error:
  assumes a_def: "a = real_of (x (h this))" and b_def: "b = real_of (y (h this))"
      and fx: "is_finite (x (h this))" and fy: "is_finite (y (h this))"
      and lo: "2 powi (- 510) \<le> max \<bar>a\<bar> \<bar>b\<bar>" and hi: "max \<bar>a\<bar> \<bar>b\<bar> \<le> 2 powi 510"
  shows "is_finite (mag double this h)"
    and "\<bar>real_of (mag double this h) - sqrt (a * a + b * b)\<bar>
           \<le> 5 * 2 powi (- 53) * sqrt (a * a + b * b)"
proof -
  define eps :: real where "eps = 2 powi (- 53)"
  define eta :: real where "eta = 2 powi (- 1075)"
  define S where "S = a * a + b * b"
  have eps0: "0 \<le> eps" and eps1: "eps \<le> 1 / 8"
    by (simp_all add: eps_def power_int_minus field_simps)
  have aa: "a * a \<le> 2 powi 1020" and bb: "b * b \<le> 2 powi 1020"
    and Slo: "2 powi (- 1020) \<le> S" and Shi: "S \<le> 2 powi 1021"
    unfolding S_def using square_bounds [OF lo hi] by blast+
  have Spos: "0 < S"
    using Slo powi_pos [of "- 1020"] by linarith
  have big: "(2 powi 1020 :: real) < 2 powi 1023"
    by (intro power_int_strict_increasing) simp_all
  define P where "P = num_mul double (x (h this)) (x (h this))"
  define Q where "Q = num_mul double (y (h this)) (y (h this))"
  define p where "p = real_of P"
  define q where "q = real_of Q"
  have P: "P = double False (a * a)"
    unfolding P_def a_def using fx by (simp add: num_mul_is_finite)
  have Q: "Q = double False (b * b)"
    unfolding Q_def b_def using fy by (simp add: num_mul_is_finite)
  have ra: "\<bar>a * a\<bar> < 2 powi 1023" and rb: "\<bar>b * b\<bar> < 2 powi 1023"
    using aa bb big by simp_all
  have fP: "is_finite P" and fQ: "is_finite Q"
    unfolding P Q using ra rb by (simp_all add: double_is_finite)
  have p0: "0 \<le> p" and q0: "0 \<le> q"
    unfolding p_def q_def P Q using ra rb by (simp_all add: double_nonneg)
  have pe: "\<bar>p - a * a\<bar> \<le> eps * (a * a) + eta"
    unfolding p_def P eps_def eta_def using double_error [OF ra, of False] by simp
  have qe: "\<bar>q - b * b\<bar> \<le> eps * (b * b) + eta"
    unfolding q_def Q eps_def eta_def using double_error [OF rb, of False] by simp
  have eta: "2 * eta \<le> eps * S"
  proof -
    have "2 * eta = 2 powi (- 1074)"
      unfolding eta_def by (simp add: power_int_minus field_simps)
    also have "\<dots> \<le> (2 powi (- 1073) :: real)"
      by (intro power_int_increasing) simp_all
    also have "\<dots> = eps * 2 powi (- 1020)"
      unfolding eps_def by (simp flip: power_int_add)
    also have "\<dots> \<le> eps * S"
      using Slo eps0 by (rule mult_left_mono)
    finally show ?thesis .
  qed
  have te: "\<bar>(p + q) - S\<bar> \<le> 2 * eps * S"
    unfolding S_def using pe qe eta [unfolded S_def] by (rule sum_error)
  have "2 * eps * S \<le> 2 * (1 / 8) * S"
    using eps1 Spos by (intro mult_right_mono mult_left_mono) simp_all
  then have tlo: "S / 2 \<le> p + q" and thi: "p + q \<le> 2 * S"
    using te Spos by linarith+
  have t_normal: "2 powi (- 1022) \<le> \<bar>p + q\<bar>"
  proof -
    have "(2 powi (- 1022) :: real) \<le> 2 powi (- 1021)"
      by (intro power_int_increasing) simp_all
    also have "\<dots> = 2 powi (- 1020) / 2"
      by (simp add: power_int_minus field_simps)
    also have "\<dots> \<le> S / 2"
      using Slo by simp
    finally show ?thesis using tlo by linarith
  qed
  have t_small: "\<bar>p + q\<bar> < 2 powi 1023"
  proof -
    have "p + q \<le> 2 * 2 powi 1021"
      using thi Shi by linarith
    also have "\<dots> = (2 powi 1022 :: real)"
      by simp
    also have "\<dots> < 2 powi 1023"
      by (intro power_int_strict_increasing) simp_all
    finally show ?thesis using p0 q0 by simp
  qed
  define T where "T = magSq double this h"
  define s where "s = real_of T"
  have T: "T = double (negative P \<and> negative Q) (p + q)"
    unfolding T_def magSq_def P_def [symmetric] Q_def [symmetric] p_def q_def
    using fP fQ by (rule num_add_is_finite)
  have fT: "is_finite T"
    unfolding T using t_small by (rule double_is_finite)
  have se: "\<bar>s - (p + q)\<bar> \<le> eps * \<bar>p + q\<bar>"
    unfolding s_def T eps_def using t_normal t_small by (rule double_error_normal)
  have "eps * \<bar>p + q\<bar> \<le> 1 / 8 * \<bar>p + q\<bar>"
    using eps1 by (intro mult_right_mono) simp_all
  then have "\<bar>s - (p + q)\<bar> \<le> 1 / 8 * \<bar>p + q\<bar>"
    using se by linarith
  moreover have "\<bar>p + q\<bar> = p + q"
    using p0 q0 by simp
  moreover define t where "t = p + q"
  ultimately have "\<bar>s - t\<bar> \<le> t / 8" and "S / 2 \<le> t" and "t \<le> 2 * S"
    using tlo thi by simp_all
  then have slo: "S / 4 \<le> s" and shi: "s \<le> 4 * S"
    using Spos by linarith+
  have spos: "0 < s"
    using slo Spos by linarith
  have sS: "\<bar>s - S\<bar> \<le> (2 * eps + eps + 2 * eps * eps) * S"
  proof -
    have "\<bar>(p + q) - S\<bar> \<le> (2 * eps) * \<bar>S\<bar>"
      using te Spos by simp
    from rel_trans [OF this se eps0] show ?thesis
      using Spos by simp
  qed
  have rr: "\<bar>sqrt s - sqrt S\<bar> \<le> (2 * eps + eps + 2 * eps * eps) * sqrt S"
    using Spos spos sS by (intro rel_sqrt) simp_all
  have root_normal: "2 powi (- 1022) \<le> \<bar>sqrt s\<bar>"
  proof -
    have "(2 powi (- 1022))\<^sup>2 = (2 powi (- 2044) :: real)"
      by (simp add: power2_eq_square flip: power_int_add)
    also have "\<dots> \<le> 2 powi (- 1022)"
      by (intro power_int_increasing) simp_all
    also have "\<dots> = 2 powi (- 1020) / 4"
      by (simp add: power_int_minus field_simps)
    also have "\<dots> \<le> S / 4"
      using Slo by simp
    also have "\<dots> \<le> s" by (rule slo)
    finally have "2 powi (- 1022) \<le> sqrt s"
      by (rule real_le_rsqrt)
    then show ?thesis by simp
  qed
  have root_small: "\<bar>sqrt s\<bar> < 2 powi 1023"
  proof -
    have "s \<le> 4 * 2 powi 1021"
      using shi Shi by linarith
    also have "\<dots> = (2 powi 1023 :: real)"
      by simp
    also have "\<dots> \<le> 2 powi 2044"
      by (intro power_int_increasing) simp_all
    also have "\<dots> = (2 powi 1022 :: real)\<^sup>2"
      by (simp add: power2_eq_square flip: power_int_add)
    finally have "sqrt s \<le> 2 powi 1022"
      by (intro real_le_lsqrt) simp_all
    also have "(2 powi 1022 :: real) < 2 powi 1023"
      by (intro power_int_strict_increasing) simp_all
    finally show ?thesis using spos by simp
  qed
  have M: "mag double this h = double False (sqrt s)"
    unfolding mag_def T_def [symmetric] s_def using fT spos [unfolded s_def]
    by (rule Math_sqrt_is_finite)
  show "is_finite (mag double this h)"
    unfolding M using root_small by (rule double_is_finite)
  have me: "\<bar>real_of (mag double this h) - sqrt s\<bar> \<le> eps * \<bar>sqrt s\<bar>"
    unfolding M eps_def using root_normal root_small by (rule double_error_normal)
  have rr': "\<bar>sqrt s - sqrt S\<bar> \<le> (2 * eps + eps + 2 * eps * eps) * \<bar>sqrt S\<bar>"
    using rr Spos by simp
  have total: "\<bar>real_of (mag double this h) - sqrt S\<bar>
      \<le> ((2 * eps + eps + 2 * eps * eps) + eps + (2 * eps + eps + 2 * eps * eps) * eps) * \<bar>sqrt S\<bar>"
    using rr' me eps0 by (rule rel_trans)
  have "(2 * eps + eps + 2 * eps * eps) + eps + (2 * eps + eps + 2 * eps * eps) * eps \<le> 5 * eps"
  proof -
    have "eps * eps \<le> 1 / 8 * eps"
      using eps0 eps1 by (intro mult_right_mono) simp_all
    moreover have "eps * (eps * eps) \<le> 1 / 8 * (eps * eps)"
      using eps1 by (intro mult_right_mono) simp_all
    ultimately show ?thesis
      using eps0 by (simp add: algebra_simps)
  qed
  then have "\<bar>real_of (mag double this h) - sqrt S\<bar> \<le> (5 * eps) * \<bar>sqrt S\<bar>"
    using total by (rule rel_weaken [rotated])
  then show "\<bar>real_of (mag double this h) - sqrt (a * a + b * b)\<bar>
           \<le> 5 * 2 powi (- 53) * sqrt (a * a + b * b)"
    using Spos by (simp add: S_def eps_def)
qed

lemma euclid_triangle:
  fixes p q u v :: real
  shows "\<bar>sqrt (p * p + q * q) - sqrt (u * u + v * v)\<bar> \<le> \<bar>p - u\<bar> + \<bar>q - v\<bar>"
proof -
  have one: "sqrt (c * c + d * d) \<le> sqrt (a * a + b * b) + (\<bar>c - a\<bar> + \<bar>d - b\<bar>)"
    for a b c d :: real
  proof -
    have "sqrt ((a + (c - a))\<^sup>2 + (b + (d - b))\<^sup>2)
        \<le> sqrt (a\<^sup>2 + b\<^sup>2) + sqrt ((c - a)\<^sup>2 + (d - b)\<^sup>2)"
      by (rule real_sqrt_sum_squares_triangle_ineq)
    moreover have "sqrt ((c - a)\<^sup>2 + (d - b)\<^sup>2) \<le> \<bar>c - a\<bar> + \<bar>d - b\<bar>"
      by (rule sqrt_sum_squares_le_sum_abs)
    ultimately show ?thesis
      by (simp add: power2_eq_square)
  qed
  have "sqrt (p * p + q * q) \<le> sqrt (u * u + v * v) + (\<bar>p - u\<bar> + \<bar>q - v\<bar>)"
    by (rule one)
  moreover have "sqrt (u * u + v * v) \<le> sqrt (p * p + q * q) + (\<bar>u - p\<bar> + \<bar>v - q\<bar>)"
    by (rule one)
  ultimately show ?thesis
    by linarith
qed

lemma circle_components:
  fixes u v R :: real
  assumes "u * u + v * v = R * R" and "0 < R"
  shows "\<bar>u\<bar> \<le> R" and "\<bar>v\<bar> \<le> R" and "R / 2 \<le> max \<bar>u\<bar> \<bar>v\<bar>"
proof -
  have "u * u \<le> R * R"
    using assms(1) zero_le_square [of v] by linarith
  then have "u\<^sup>2 \<le> R\<^sup>2" by (simp add: power2_eq_square)
  then show u: "\<bar>u\<bar> \<le> R"
    using assms(2) by (simp add: abs_le_square_iff [symmetric])
  have "v * v \<le> R * R"
    using assms(1) zero_le_square [of u] by linarith
  then have "v\<^sup>2 \<le> R\<^sup>2" by (simp add: power2_eq_square)
  then show v: "\<bar>v\<bar> \<le> R"
    using assms(2) by (simp add: abs_le_square_iff [symmetric])
  show "R / 2 \<le> max \<bar>u\<bar> \<bar>v\<bar>"
  proof (rule ccontr)
    assume "\<not> R / 2 \<le> max \<bar>u\<bar> \<bar>v\<bar>"
    then have ul: "\<bar>u\<bar> < R / 2" and vl: "\<bar>v\<bar> < R / 2"
      by simp_all
    have "\<bar>u\<bar> * \<bar>u\<bar> \<le> R / 2 * (R / 2)"
      using ul by (intro mult_mono) simp_all
    moreover have "\<bar>v\<bar> * \<bar>v\<bar> \<le> R / 2 * (R / 2)"
      using vl by (intro mult_mono) simp_all
    ultimately have "u * u + v * v \<le> R * R / 2"
      by (simp add: field_simps)
    moreover have "0 < R * R"
      using assms(2) by simp
    ultimately show False
      using assms(1) by linarith
  qed
qed

text \<open>
  The magnitude binary64 arithmetic computes for a vector whose components are near
  those of a vector of length \<open>R\<close>.
\<close>

lemma mag_near:
  assumes a_def: "a = real_of (x (h this))" and b_def: "b = real_of (y (h this))"
      and fx: "is_finite (x (h this))" and fy: "is_finite (y (h this))"
      and ea: "\<bar>a - u\<bar> \<le> E * \<bar>u\<bar> + n" and eb: "\<bar>b - v\<bar> \<le> E * \<bar>v\<bar> + n"
      and circle: "u * u + v * v = R * R"
      and Rlo: "2 powi (- 500) \<le> R" and Rhi: "R \<le> 2 powi 500"
      and E0: "0 \<le> E" and E1: "E \<le> 1 / 64" and n0: "0 \<le> n"
      and n1: "2 * n \<le> 2 powi (- 53) * R"
  shows "is_finite (mag double this h)"
    and "\<bar>real_of (mag double this h) - R\<bar> \<le> (2 * E + 7 * 2 powi (- 53)) * R"
proof -
  define eps :: real where "eps = 2 powi (- 53)"
  have eps0: "0 \<le> eps" and eps1: "eps \<le> 1 / 64"
    by (simp_all add: eps_def power_int_minus field_simps)
  have Rpos: "0 < R"
    using Rlo powi_pos [of "- 500"] by linarith
  have ule: "\<bar>u\<bar> \<le> R" and vle: "\<bar>v\<bar> \<le> R" and big: "R / 2 \<le> max \<bar>u\<bar> \<bar>v\<bar>"
    using circle_components [OF circle Rpos] by blast+
  have n2: "2 * n \<le> eps * R"
    using n1 by (simp add: eps_def)
  have "eps * R \<le> 1 / 64 * R"
    using eps1 Rpos by (intro mult_right_mono) simp_all
  then have nR: "n \<le> R / 128"
    using n2 by linarith
  have Eu: "E * \<bar>u\<bar> \<le> 1 / 64 * \<bar>u\<bar>" and Ev: "E * \<bar>v\<bar> \<le> 1 / 64 * \<bar>v\<bar>"
    using E1 by (intro mult_right_mono; simp)+
  have Eu': "E * \<bar>u\<bar> \<le> E * R" and Ev': "E * \<bar>v\<bar> \<le> E * R"
    using E0 ule vle by (intro mult_left_mono; simp)+
  have amax: "\<bar>a\<bar> \<le> 2 * R" and bmax: "\<bar>b\<bar> \<le> 2 * R"
    using ea eb Eu Ev ule vle nR Rpos by linarith+
  have lo: "R / 4 \<le> max \<bar>a\<bar> \<bar>b\<bar>"
  proof -
    have "R / 2 \<le> \<bar>u\<bar> \<or> R / 2 \<le> \<bar>v\<bar>"
      using big by (simp add: le_max_iff_disj)
    then have "R / 4 \<le> \<bar>a\<bar> \<or> R / 4 \<le> \<bar>b\<bar>"
      using ea eb Eu Ev nR Rpos by linarith
    then show ?thesis
      by (simp add: le_max_iff_disj)
  qed
  have lo': "2 powi (- 510) \<le> max \<bar>a\<bar> \<bar>b\<bar>"
  proof -
    have "(2 powi (- 510) :: real) \<le> 2 powi (- 502)"
      by (intro power_int_increasing) simp_all
    also have "\<dots> = 2 powi (- 500) / 4"
      by (simp add: power_int_minus field_simps)
    also have "\<dots> \<le> R / 4"
      using Rlo by simp
    finally show ?thesis using lo by linarith
  qed
  have hi': "max \<bar>a\<bar> \<bar>b\<bar> \<le> 2 powi 510"
  proof -
    have "2 * R \<le> 2 * 2 powi 500"
      using Rhi by simp
    also have "\<dots> = (2 powi 501 :: real)"
      by simp
    also have "\<dots> \<le> 2 powi 510"
      by (intro power_int_increasing) simp_all
    finally show ?thesis using amax bmax by simp
  qed
  show "is_finite (mag double this h)"
    using a_def b_def fx fy lo' hi' by (rule mag_double_error)
  define N where "N = sqrt (a * a + b * b)"
  have me: "\<bar>real_of (mag double this h) - N\<bar> \<le> 5 * eps * N"
    unfolding N_def eps_def using a_def b_def fx fy lo' hi' by (rule mag_double_error)
  have "sqrt (u * u + v * v) = R"
    using Rpos by (simp add: circle)
  then have "\<bar>N - R\<bar> \<le> \<bar>a - u\<bar> + \<bar>b - v\<bar>"
    unfolding N_def using euclid_triangle [of a b u v] by simp
  also have "\<dots> \<le> E * R + E * R + 2 * n"
    using ea eb Eu' Ev' by linarith
  also have "\<dots> \<le> 2 * E * R + eps * R"
    using n2 by simp
  finally have NR: "\<bar>N - R\<bar> \<le> (2 * E + eps) * R"
    by (simp add: algebra_simps)
  have "(2 * E + eps) * R \<le> (2 * (1 / 64) + 1 / 64) * R"
    using E1 eps1 Rpos by (intro mult_right_mono add_mono) simp_all
  then have "\<bar>N - R\<bar> \<le> 3 / 64 * R"
    using NR by simp
  then have Nle: "N \<le> 6 / 5 * R"
    using Rpos by linarith
  have "5 * eps * N \<le> 5 * eps * (6 / 5 * R)"
    using Nle eps0 by (intro mult_left_mono) simp_all
  moreover have "5 * eps * (6 / 5 * R) = 6 * eps * R"
    by simp
  ultimately have "\<bar>real_of (mag double this h) - N\<bar> \<le> 6 * eps * R"
    using me by linarith
  then have "\<bar>real_of (mag double this h) - R\<bar> \<le> 6 * eps * R + (2 * E + eps) * R"
    using NR by linarith
  then show "\<bar>real_of (mag double this h) - R\<bar> \<le> (2 * E + 7 * 2 powi (- 53)) * R"
    by (simp add: eps_def algebra_simps)
qed

section \<open>\<^verbatim>\<open>normalize\<close> and \<^verbatim>\<open>setMag\<close> in binary64 arithmetic\<close>

lemma product_error_real:
  fixes xv kv a c e1 e2 n1 :: real
  assumes xa: "\<bar>xv - a\<bar> \<le> e1 * \<bar>a\<bar> + n1" and kc: "\<bar>kv - c\<bar> \<le> e2 * \<bar>c\<bar>"
      and e1: "0 \<le> e1" and e2: "0 \<le> e2" "e2 \<le> 1" and n1: "0 \<le> n1"
  shows "\<bar>xv * kv - a * c\<bar> \<le> (e1 + e2 + e1 * e2) * \<bar>a * c\<bar> + 2 * n1 * \<bar>c\<bar>"
proof -
  have k: "\<bar>kv\<bar> \<le> \<bar>c\<bar> + e2 * \<bar>c\<bar>"
    using kc by linarith
  have "xv * kv - a * c = (xv - a) * kv + a * (kv - c)"
    by (simp add: algebra_simps)
  then have "\<bar>xv * kv - a * c\<bar> \<le> \<bar>xv - a\<bar> * \<bar>kv\<bar> + \<bar>a\<bar> * \<bar>kv - c\<bar>"
    by (metis abs_mult abs_triangle_ineq)
  also have "\<bar>xv - a\<bar> * \<bar>kv\<bar> \<le> (e1 * \<bar>a\<bar> + n1) * (\<bar>c\<bar> + e2 * \<bar>c\<bar>)"
    using xa k by (intro mult_mono) (simp_all add: e1 n1 add_nonneg_nonneg)
  also have "\<bar>a\<bar> * \<bar>kv - c\<bar> \<le> \<bar>a\<bar> * (e2 * \<bar>c\<bar>)"
    using kc by (intro mult_left_mono) simp_all
  finally have "\<bar>xv * kv - a * c\<bar>
      \<le> (e1 * \<bar>a\<bar> + n1) * (\<bar>c\<bar> + e2 * \<bar>c\<bar>) + \<bar>a\<bar> * (e2 * \<bar>c\<bar>)"
    by simp
  also have "\<dots> = (e1 + e2 + e1 * e2) * \<bar>a * c\<bar> + n1 * \<bar>c\<bar> + e2 * (n1 * \<bar>c\<bar>)"
    by (simp add: algebra_simps abs_mult)
  also have "e2 * (n1 * \<bar>c\<bar>) \<le> 1 * (n1 * \<bar>c\<bar>)"
    using e2(2) n1 by (intro mult_right_mono) simp_all
  finally show ?thesis
    by simp
qed

text \<open>
  The binary64 product of a number near \<open>a\<close> and a number near \<open>c\<close> is near \<open>a * c\<close>.
\<close>

lemma product_error:
  assumes fX: "is_finite X" and fK: "is_finite K"
      and xa: "\<bar>real_of X - a\<bar> \<le> e1 * \<bar>a\<bar> + n1" and kc: "\<bar>real_of K - c\<bar> \<le> e2 * \<bar>c\<bar>"
      and e1: "0 \<le> e1" "e1 \<le> 1 / 4" and e2: "0 \<le> e2" "e2 \<le> 1 / 4" and n1: "0 \<le> n1"
      and r1: "\<bar>a * c\<bar> \<le> 2 powi 1000" and r2: "n1 * \<bar>c\<bar> \<le> 2 powi 1000"
  shows "is_finite (num_mul double X K)"
    and "\<bar>real_of (num_mul double X K) - a * c\<bar>
           \<le> (e1 + e2 + e1 * e2 + 2 * 2 powi (- 53)) * \<bar>a * c\<bar>
              + (3 * n1 * \<bar>c\<bar> + 2 powi (- 1075))"
proof -
  define eps :: real where "eps = 2 powi (- 53)"
  define eta :: real where "eta = 2 powi (- 1075)"
  define xv where "xv = real_of X"
  define kv where "kv = real_of K"
  define e where "e = e1 + e2 + e1 * e2"
  have eps0: "0 \<le> eps" and eps1: "eps \<le> 1 / 4"
    by (simp_all add: eps_def power_int_minus field_simps)
  have e0: "0 \<le> e"
    using e1(1) e2(1) by (simp add: e_def)
  have "e1 * e2 \<le> 1 / 4 * (1 / 4)"
    using e1 e2 by (intro mult_mono) simp_all
  then have e_le: "e \<le> 1"
    using e1(2) e2(2) by (simp add: e_def)
  have nc0: "0 \<le> n1 * \<bar>c\<bar>"
    using n1 by simp
  have pe: "\<bar>xv * kv - a * c\<bar> \<le> e * \<bar>a * c\<bar> + 2 * n1 * \<bar>c\<bar>"
    unfolding e_def xv_def kv_def using xa kc e1(1) e2(1) _ n1
    by (rule product_error_real) (use e2(2) in simp)
  have "e * \<bar>a * c\<bar> \<le> 1 * \<bar>a * c\<bar>"
    using e_le by (intro mult_right_mono) simp_all
  then have size: "\<bar>xv * kv\<bar> \<le> 2 * \<bar>a * c\<bar> + 2 * (n1 * \<bar>c\<bar>)"
    using pe by linarith
  have "2 * \<bar>a * c\<bar> + 2 * (n1 * \<bar>c\<bar>) \<le> 2 * 2 powi 1000 + 2 * 2 powi 1000"
    using r1 r2 by linarith
  also have "\<dots> = (2 powi 1002 :: real)"
    by simp
  also have "\<dots> < 2 powi 1023"
    by (intro power_int_strict_increasing) simp_all
  finally have range: "\<bar>xv * kv\<bar> < 2 powi 1023"
    using size by linarith
  have prod: "num_mul double X K = double (negative X \<noteq> negative K) (xv * kv)"
    unfolding xv_def kv_def using fX fK by (rule num_mul_is_finite)
  show "is_finite (num_mul double X K)"
    unfolding prod using range by (rule double_is_finite)
  define AC where "AC = \<bar>a * c\<bar>"
  define NC where "NC = n1 * \<bar>c\<bar>"
  define W where "W = \<bar>xv * kv\<bar>"
  define D where "D = \<bar>real_of (num_mul double X K) - xv * kv\<bar>"
  have "D \<le> eps * W + eta"
    unfolding D_def W_def prod eps_def eta_def using range by (rule double_error)
  moreover have "eps * W \<le> eps * (2 * AC + 2 * NC)"
    unfolding W_def AC_def NC_def using size eps0 by (rule mult_left_mono)
  moreover have "eps * (2 * AC + 2 * NC) = 2 * eps * AC + eps * (2 * NC)"
    by (simp add: algebra_simps)
  moreover have "eps * (2 * NC) \<le> 1 / 4 * (2 * NC)"
    using eps1 nc0 unfolding NC_def by (intro mult_right_mono) simp_all
  moreover have "0 \<le> NC"
    using nc0 by (simp add: NC_def)
  ultimately have "D \<le> 2 * eps * AC + NC + eta"
    by linarith
  then have "\<bar>real_of (num_mul double X K) - xv * kv\<bar>
      \<le> 2 * eps * \<bar>a * c\<bar> + n1 * \<bar>c\<bar> + eta"
    by (simp only: D_def AC_def NC_def)
  then have "\<bar>real_of (num_mul double X K) - a * c\<bar>
      \<le> e * \<bar>a * c\<bar> + 2 * eps * \<bar>a * c\<bar> + (3 * n1 * \<bar>c\<bar> + eta)"
    using pe by linarith
  then show "\<bar>real_of (num_mul double X K) - a * c\<bar>
           \<le> (e1 + e2 + e1 * e2 + 2 * 2 powi (- 53)) * \<bar>a * c\<bar>
              + (3 * n1 * \<bar>c\<bar> + 2 powi (- 1075))"
    by (simp add: e_def eps_def eta_def algebra_simps)
qed

lemma sqrt_square_bounds:
  fixes a b :: real
  assumes "2 powi (- 510) \<le> max \<bar>a\<bar> \<bar>b\<bar>" and "max \<bar>a\<bar> \<bar>b\<bar> \<le> 2 powi 510"
  shows "2 powi (- 510) \<le> sqrt (a * a + b * b)" and "sqrt (a * a + b * b) \<le> 2 powi 511"
    and "\<bar>a\<bar> \<le> sqrt (a * a + b * b)" and "\<bar>b\<bar> \<le> sqrt (a * a + b * b)"
proof -
  have Slo: "2 powi (- 1020) \<le> a * a + b * b" and Shi: "a * a + b * b \<le> 2 powi 1021"
    using square_bounds [OF assms] by blast+
  have "(2 powi (- 510))\<^sup>2 = (2 powi (- 1020) :: real)"
    by (simp add: power2_eq_square flip: power_int_add)
  then have "(2 powi (- 510))\<^sup>2 \<le> a * a + b * b"
    using Slo by simp
  then show "2 powi (- 510) \<le> sqrt (a * a + b * b)"
    by (rule real_le_rsqrt)
  have "(2 powi 1021 :: real) \<le> 2 powi 1022"
    by (intro power_int_increasing) simp_all
  also have "\<dots> = (2 powi 511)\<^sup>2"
    by (simp add: power2_eq_square flip: power_int_add)
  finally have "a * a + b * b \<le> (2 powi 511)\<^sup>2"
    using Shi by linarith
  then show "sqrt (a * a + b * b) \<le> 2 powi 511"
    by (intro real_le_lsqrt) simp_all
  have "sqrt (a * a) \<le> sqrt (a * a + b * b)"
    by (rule real_sqrt_le_mono) simp
  then show "\<bar>a\<bar> \<le> sqrt (a * a + b * b)"
    by (simp only: real_sqrt_abs2)
  have "sqrt (b * b) \<le> sqrt (a * a + b * b)"
    by (rule real_sqrt_le_mono) simp
  then show "\<bar>b\<bar> \<le> sqrt (a * a + b * b)"
    by (simp only: real_sqrt_abs2)
qed

text \<open>The factor \<^verbatim>\<open>1 / mag()\<close> of \<^verbatim>\<open>normalize\<close>, in binary64 arithmetic.\<close>

lemma normalize_double_factor:
  assumes a_def: "a = real_of (x (h this))" and b_def: "b = real_of (y (h this))"
      and fx: "is_finite (x (h this))" and fy: "is_finite (y (h this))"
      and lo: "2 powi (- 510) \<le> max \<bar>a\<bar> \<bar>b\<bar>" and hi: "max \<bar>a\<bar> \<bar>b\<bar> \<le> 2 powi 510"
  shows "\<not> js_eq (mag double this h) (Num 0)"
    and "is_finite (num_div double (Num 1) (mag double this h))"
    and "\<bar>real_of (num_div double (Num 1) (mag double this h)) - 1 / sqrt (a * a + b * b)\<bar>
           \<le> 12 * 2 powi (- 53) * \<bar>1 / sqrt (a * a + b * b)\<bar>"
proof -
  define eps :: real where "eps = 2 powi (- 53)"
  define N where "N = sqrt (a * a + b * b)"
  define m where "m = real_of (mag double this h)"
  have eps0: "0 \<le> eps" and eps1: "eps \<le> 1 / 64"
    by (simp_all add: eps_def power_int_minus field_simps)
  have Nlo: "2 powi (- 510) \<le> N" and Nhi: "N \<le> 2 powi 511"
    unfolding N_def using sqrt_square_bounds [OF lo hi] by blast+
  have Npos: "0 < N"
    using Nlo powi_pos [of "- 510"] by linarith
  have fM: "is_finite (mag double this h)"
    using a_def b_def fx fy lo hi by (rule mag_double_error)
  have me: "\<bar>m - N\<bar> \<le> 5 * eps * N"
    unfolding m_def N_def eps_def using a_def b_def fx fy lo hi by (rule mag_double_error)
  have "5 * eps * N \<le> 5 * (1 / 64) * N"
    using eps1 Npos by (intro mult_right_mono mult_left_mono) simp_all
  then have mlo: "N / 2 \<le> m" and mhi: "m \<le> 2 * N"
    using me Npos by linarith+
  have mpos: "0 < m"
    using mlo Npos by linarith
  have M: "mag double this h = Num m"
    unfolding m_def using fM mpos [unfolded m_def] by (intro is_finite_Num) simp_all
  show "\<not> js_eq (mag double this h) (Num 0)"
    using mpos by (simp add: M js_eq_Num)
  have K: "num_div double (Num 1) (mag double this h)
      = double (negative (Num 1) \<noteq> negative (Num m)) (1 / m)"
    unfolding M using mpos by (simp add: num_div_is_finite is_finite_def)
  have inv_pos: "0 < 1 / m"
    using mpos by simp
  have inv_lo: "2 powi (- 1022) \<le> \<bar>1 / m\<bar>"
  proof -
    have "m \<le> 2 * 2 powi 511"
      using mhi Nhi by linarith
    also have "\<dots> = (2 powi 512 :: real)"
      by simp
    finally have "1 / 2 powi 512 \<le> 1 / m"
      using mpos by (intro divide_left_mono) simp_all
    moreover have "(2 powi (- 1022) :: real) \<le> 2 powi (- 512)"
      by (intro power_int_increasing) simp_all
    moreover have "(2 powi (- 512) :: real) = 1 / 2 powi 512"
      by (simp only: power_int_minus_divide)
    ultimately show ?thesis
      using inv_pos by linarith
  qed
  have inv_hi: "\<bar>1 / m\<bar> < 2 powi 1023"
  proof -
    have "2 powi (- 510) / 2 \<le> m"
      using mlo Nlo by linarith
    moreover have "(2 powi (- 510) / 2 :: real) = 2 powi (- 511)"
      by (simp add: power_int_minus field_simps)
    ultimately have "2 powi (- 511) \<le> m"
      by simp
    then have "1 / m \<le> 1 / 2 powi (- 511)"
      by (intro divide_left_mono) (simp_all add: mpos)
    moreover have "1 / 2 powi (- 511) = (2 powi 511 :: real)"
      by (simp add: power_int_minus)
    moreover have "(2 powi 511 :: real) < 2 powi 1023"
      by (intro power_int_strict_increasing) simp_all
    ultimately show ?thesis
      using inv_pos by linarith
  qed
  show "is_finite (num_div double (Num 1) (mag double this h))"
    unfolding K using inv_hi by (rule double_is_finite)
  have ke: "\<bar>real_of (num_div double (Num 1) (mag double this h)) - 1 / m\<bar> \<le> eps * \<bar>1 / m\<bar>"
    unfolding K eps_def using inv_lo inv_hi by (rule double_error_normal)
  have N0: "N \<noteq> 0" using Npos by simp
  have me': "\<bar>m - N\<bar> \<le> (5 * eps) * \<bar>N\<bar>"
    using me Npos by simp
  have "5 * eps \<le> 1 / 2"
    using eps1 by simp
  with N0 me' have ie: "\<bar>1 / m - 1 / N\<bar> \<le> 2 * (5 * eps) * \<bar>1 / N\<bar>"
    by (rule rel_inverse)
  have total: "\<bar>real_of (num_div double (Num 1) (mag double this h)) - 1 / N\<bar>
      \<le> (2 * (5 * eps) + eps + 2 * (5 * eps) * eps) * \<bar>1 / N\<bar>"
    using ie ke eps0 by (rule rel_trans)
  have "eps * eps \<le> 1 / 64 * eps"
    using eps0 eps1 by (intro mult_right_mono) simp_all
  then have "2 * (5 * eps) + eps + 2 * (5 * eps) * eps \<le> 12 * eps"
    using eps0 by simp
  with total have "\<bar>real_of (num_div double (Num 1) (mag double this h)) - 1 / N\<bar>
      \<le> (12 * eps) * \<bar>1 / N\<bar>"
    by (rule rel_weaken)
  then show "\<bar>real_of (num_div double (Num 1) (mag double this h)) - 1 / sqrt (a * a + b * b)\<bar>
           \<le> 12 * 2 powi (- 53) * \<bar>1 / sqrt (a * a + b * b)\<bar>"
    by (simp only: N_def eps_def)
qed

text \<open>The components \<^verbatim>\<open>normalize\<close> leaves, in binary64 arithmetic.\<close>

lemma normalize_double_error:
  assumes a_def: "a = real_of (x (h this))" and b_def: "b = real_of (y (h this))"
      and fx: "is_finite (x (h this))" and fy: "is_finite (y (h this))"
      and lo: "2 powi (- 510) \<le> max \<bar>a\<bar> \<bar>b\<bar>" and hi: "max \<bar>a\<bar> \<bar>b\<bar> \<le> 2 powi 510"
  shows "is_finite (x (snd (normalize_v double this h) this))"
    and "is_finite (y (snd (normalize_v double this h) this))"
    and "\<bar>real_of (x (snd (normalize_v double this h) this)) - a * (1 / sqrt (a * a + b * b))\<bar>
           \<le> 14 * 2 powi (- 53) * \<bar>a * (1 / sqrt (a * a + b * b))\<bar> + 2 powi (- 1075)"
    and "\<bar>real_of (y (snd (normalize_v double this h) this)) - b * (1 / sqrt (a * a + b * b))\<bar>
           \<le> 14 * 2 powi (- 53) * \<bar>b * (1 / sqrt (a * a + b * b))\<bar> + 2 powi (- 1075)"
proof -
  define K where "K = num_div double (Num 1) (mag double this h)"
  define N where "N = sqrt (a * a + b * b)"
  define eps :: real where "eps = 2 powi (- 53)"
  have eps0: "0 \<le> eps" and eps1: "12 * eps \<le> 1 / 4"
    by (simp_all add: eps_def power_int_minus field_simps)
  have nz: "\<not> js_eq (mag double this h) (Num 0)"
    using a_def b_def fx fy lo hi by (rule normalize_double_factor)
  have fK: "is_finite K"
    unfolding K_def using a_def b_def fx fy lo hi by (rule normalize_double_factor)
  have ke: "\<bar>real_of K - 1 / N\<bar> \<le> (12 * eps) * \<bar>1 / N\<bar>"
    unfolding K_def N_def eps_def using a_def b_def fx fy lo hi
    by (rule normalize_double_factor)
  have res: "snd (normalize_v double this h)
      = h(this := \<lparr>x = num_mul double (x (h this)) K, y = num_mul double (y (h this)) K\<rparr>)"
    using nz by (simp add: normalize_v_nonzero scale_def K_def vec2_update_both)
  have Npos: "0 < N"
    unfolding N_def using sqrt_square_bounds(1) [OF lo hi] powi_pos [of "- 510"] by linarith
  have aN: "\<bar>a\<bar> \<le> N" and bN: "\<bar>b\<bar> \<le> N"
    unfolding N_def using sqrt_square_bounds [OF lo hi] by blast+
  have one: "(1::real) \<le> 2 powi 1000"
    using power_int_increasing [of 0 1000 "2::real"] by simp
  have ra: "\<bar>a * (1 / N)\<bar> \<le> 2 powi 1000"
  proof -
    have "\<bar>a * (1 / N)\<bar> = \<bar>a\<bar> / N"
      using Npos by (simp add: abs_mult)
    also have "\<dots> \<le> 1"
      using aN Npos by simp
    finally show ?thesis using one by linarith
  qed
  have rb: "\<bar>b * (1 / N)\<bar> \<le> 2 powi 1000"
  proof -
    have "\<bar>b * (1 / N)\<bar> = \<bar>b\<bar> / N"
      using Npos by (simp add: abs_mult)
    also have "\<dots> \<le> 1"
      using bN Npos by simp
    finally show ?thesis using one by linarith
  qed
  have r0: "0 * \<bar>1 / N\<bar> \<le> (2 powi 1000 :: real)"
    by simp
  have xa: "\<bar>real_of (x (h this)) - a\<bar> \<le> 0 * \<bar>a\<bar> + 0"
    by (simp add: a_def)
  have yb: "\<bar>real_of (y (h this)) - b\<bar> \<le> 0 * \<bar>b\<bar> + 0"
    by (simp add: b_def)
  have X: "is_finite (num_mul double (x (h this)) K)"
    using fx fK xa ke _ _ _ eps1 _ ra r0 by (rule product_error) (simp_all add: eps0)
  have Y: "is_finite (num_mul double (y (h this)) K)"
    using fy fK yb ke _ _ _ eps1 _ rb r0 by (rule product_error) (simp_all add: eps0)
  have Xe: "\<bar>real_of (num_mul double (x (h this)) K) - a * (1 / N)\<bar>
      \<le> (0 + 12 * eps + 0 * (12 * eps) + 2 * 2 powi (- 53)) * \<bar>a * (1 / N)\<bar>
          + (3 * 0 * \<bar>1 / N\<bar> + 2 powi (- 1075))"
    using fx fK xa ke _ _ _ eps1 _ ra r0 by (rule product_error) (simp_all add: eps0)
  have Ye: "\<bar>real_of (num_mul double (y (h this)) K) - b * (1 / N)\<bar>
      \<le> (0 + 12 * eps + 0 * (12 * eps) + 2 * 2 powi (- 53)) * \<bar>b * (1 / N)\<bar>
          + (3 * 0 * \<bar>1 / N\<bar> + 2 powi (- 1075))"
    using fy fK yb ke _ _ _ eps1 _ rb r0 by (rule product_error) (simp_all add: eps0)
  show "is_finite (x (snd (normalize_v double this h) this))"
    and "is_finite (y (snd (normalize_v double this h) this))"
    using X Y by (simp_all add: res)
  have c: "(0 + 12 * eps + 0 * (12 * eps) + 2 * 2 powi (- 53)) = 14 * 2 powi (- 53)"
    by (simp add: eps_def)
  show "\<bar>real_of (x (snd (normalize_v double this h) this)) - a * (1 / sqrt (a * a + b * b))\<bar>
           \<le> 14 * 2 powi (- 53) * \<bar>a * (1 / sqrt (a * a + b * b))\<bar> + 2 powi (- 1075)"
    using Xe unfolding c by (simp add: res N_def)
  show "\<bar>real_of (y (snd (normalize_v double this h) this)) - b * (1 / sqrt (a * a + b * b))\<bar>
           \<le> 14 * 2 powi (- 53) * \<bar>b * (1 / sqrt (a * a + b * b))\<bar> + 2 powi (- 1075)"
    using Ye unfolding c by (simp add: res N_def)
qed

lemma unit_circle:
  fixes a b :: real
  assumes "0 < a * a + b * b"
  shows "a * (1 / sqrt (a * a + b * b)) * (a * (1 / sqrt (a * a + b * b)))
       + b * (1 / sqrt (a * a + b * b)) * (b * (1 / sqrt (a * a + b * b))) = 1"
proof -
  define S where "S = a * a + b * b"
  define N where "N = sqrt S"
  have Spos: "0 < S"
    using assms by (simp only: S_def)
  then have N2: "N * N = S"
    by (simp add: N_def)
  have "S \<noteq> 0"
    using Spos by simp
  have "a * (1 / N) * (a * (1 / N)) + b * (1 / N) * (b * (1 / N)) = (a * a + b * b) / (N * N)"
    by (simp add: add_divide_distrib)
  also have "\<dots> = S / S"
    by (simp only: N2 S_def)
  also have "\<dots> = 1"
    using \<open>S \<noteq> 0\<close> by simp
  finally show ?thesis
    by (simp only: N_def S_def)
qed

lemma range_510:
  fixes M :: real
  assumes "2 powi (- 500) \<le> M" and "M \<le> 2 powi 500"
  shows "2 powi (- 510) \<le> M" and "M \<le> 2 powi 510"
proof -
  have "(2 powi (- 510) :: real) \<le> 2 powi (- 500)"
    by (intro power_int_increasing) simp_all
  then show "2 powi (- 510) \<le> M"
    using assms(1) by linarith
  have "(2 powi 500 :: real) \<le> 2 powi 510"
    by (intro power_int_increasing) simp_all
  then show "M \<le> 2 powi 510"
    using assms(2) by linarith
qed

text \<open>
  In binary64 arithmetic, away from overflow and underflow, the magnitude after
  \<^verbatim>\<open>normalize()\<close> is 1 to within \<^verbatim>\<open>2^-47\<close>.
\<close>

lemma normalize_double_magnitude:
  assumes a_def: "a = real_of (x (h this))" and b_def: "b = real_of (y (h this))"
      and fx: "is_finite (x (h this))" and fy: "is_finite (y (h this))"
      and lo: "2 powi (- 500) \<le> max \<bar>a\<bar> \<bar>b\<bar>" and hi: "max \<bar>a\<bar> \<bar>b\<bar> \<le> 2 powi 500"
  shows "is_finite (mag double this (snd (normalize_v double this h)))"
    and "\<bar>real_of (mag double this (snd (normalize_v double this h))) - 1\<bar> \<le> 2 powi (- 47)"
proof -
  define h' where "h' = snd (normalize_v double this h)"
  define eps :: real where "eps = 2 powi (- 53)"
  define eta :: real where "eta = 2 powi (- 1075)"
  define u where "u = a * (1 / sqrt (a * a + b * b))"
  define v where "v = b * (1 / sqrt (a * a + b * b))"
  note lo' = range_510(1) [OF lo hi] and hi' = range_510(2) [OF lo hi]
  have Spos: "0 < a * a + b * b"
    using square_bounds(3) [OF lo' hi'] powi_pos [of "- 1020"] by linarith
  have fx': "is_finite (x (h' this))" and fy': "is_finite (y (h' this))"
    unfolding h'_def using a_def b_def fx fy lo' hi' by (rule normalize_double_error)+
  have ea: "\<bar>real_of (x (h' this)) - u\<bar> \<le> (14 * eps) * \<bar>u\<bar> + eta"
    unfolding h'_def u_def eps_def eta_def using a_def b_def fx fy lo' hi'
    by (rule normalize_double_error)
  have eb: "\<bar>real_of (y (h' this)) - v\<bar> \<le> (14 * eps) * \<bar>v\<bar> + eta"
    unfolding h'_def v_def eps_def eta_def using a_def b_def fx fy lo' hi'
    by (rule normalize_double_error)
  have circle: "u * u + v * v = 1 * 1"
    unfolding u_def v_def using unit_circle [OF Spos] by simp
  have R1: "2 powi (- 500) \<le> (1::real)"
    using power_int_increasing [of "- 500" 0 "2::real"] by simp
  have R2: "(1::real) \<le> 2 powi 500"
    using power_int_increasing [of 0 500 "2::real"] by simp
  have E0: "0 \<le> 14 * eps" and E1: "14 * eps \<le> 1 / 64"
    by (simp_all add: eps_def power_int_minus field_simps)
  have n0: "0 \<le> eta"
    by (simp add: eta_def)
  have n1: "2 * eta \<le> 2 powi (- 53) * 1"
  proof -
    have "2 * eta = 2 powi (- 1074)"
      by (simp add: eta_def power_int_minus field_simps)
    also have "\<dots> \<le> (2 powi (- 53) :: real)"
      by (intro power_int_increasing) simp_all
    finally show ?thesis by simp
  qed
  show "is_finite (mag double this (snd (normalize_v double this h)))"
    unfolding h'_def [symmetric]
    using refl refl fx' fy' ea eb circle R1 R2 E0 E1 n0 n1 by (rule mag_near)
  have "\<bar>real_of (mag double this h') - 1\<bar> \<le> (2 * (14 * eps) + 7 * 2 powi (- 53)) * 1"
    using refl refl fx' fy' ea eb circle R1 R2 E0 E1 n0 n1 by (rule mag_near)
  also have "(2 * (14 * eps) + 7 * 2 powi (- 53)) * 1 = 35 * 2 powi (- 53)"
    by (simp add: eps_def)
  also have "\<dots> \<le> 64 * (2 powi (- 53) :: real)"
    by simp
  also have "\<dots> = 2 powi (- 47)"
    by (simp add: power_int_minus field_simps)
  finally show "\<bar>real_of (mag double this (snd (normalize_v double this h))) - 1\<bar> \<le> 2 powi (- 47)"
    by (simp only: h'_def)
qed

lemma setMag_after_normalize:
  "snd (setMag rd t this h) =
     (snd (normalize_v rd this h))
       (this := \<lparr>x = num_mul rd (x (snd (normalize_v rd this h) this)) t,
                  y = num_mul rd (y (snd (normalize_v rd this h) this)) t\<rparr>)"
proof -
  obtain r h' where n: "normalize_v rd this h = (r, h')"
    by (cases "normalize_v rd this h")
  then have "r = this"
    using normalize_v_returns_this [of rd this h] by simp
  then show ?thesis
    by (simp add: setMag_def n scale_def vec2_update_both)
qed

text \<open>
  In binary64 arithmetic, away from overflow and underflow, \<^verbatim>\<open>setMag(t)\<close> leaves
  each component within \<^verbatim>\<open>2^-49\<close> (relative) of \<^verbatim>\<open>t / |v|\<close> times the original
  one, and a magnitude within \<^verbatim>\<open>2^-47\<close> (relative) of \<open>\<bar>t\<bar>\<close>.
\<close>

lemma setMag_double_error:
  assumes a_def: "a = real_of (x (h this))" and b_def: "b = real_of (y (h this))"
      and fx: "is_finite (x (h this))" and fy: "is_finite (y (h this))"
      and lo: "2 powi (- 500) \<le> max \<bar>a\<bar> \<bar>b\<bar>" and hi: "max \<bar>a\<bar> \<bar>b\<bar> \<le> 2 powi 500"
      and ft: "is_finite t" and tv_def: "tv = real_of t"
      and tlo: "2 powi (- 500) \<le> \<bar>tv\<bar>" and thi: "\<bar>tv\<bar> \<le> 2 powi 500"
  shows "is_finite (mag double this (snd (setMag double t this h)))"
    and "\<bar>real_of (mag double this (snd (setMag double t this h))) - \<bar>tv\<bar>\<bar>
           \<le> 2 powi (- 47) * \<bar>tv\<bar>"
    and "\<bar>real_of (x (snd (setMag double t this h) this)) - a * (1 / sqrt (a * a + b * b)) * tv\<bar>
           \<le> 2 powi (- 49) * \<bar>a * (1 / sqrt (a * a + b * b)) * tv\<bar> + 2 powi (- 573)"
    and "\<bar>real_of (y (snd (setMag double t this h) this)) - b * (1 / sqrt (a * a + b * b)) * tv\<bar>
           \<le> 2 powi (- 49) * \<bar>b * (1 / sqrt (a * a + b * b)) * tv\<bar> + 2 powi (- 573)"
proof -
  define h' where "h' = snd (normalize_v double this h)"
  define h'' where "h'' = snd (setMag double t this h)"
  define eps :: real where "eps = 2 powi (- 53)"
  define eta :: real where "eta = 2 powi (- 1075)"
  define N where "N = sqrt (a * a + b * b)"
  define u where "u = a * (1 / N)"
  define v where "v = b * (1 / N)"
  define R where "R = \<bar>tv\<bar>"
  define n where "n = 3 * eta * \<bar>tv\<bar> + eta"
  note lo' = range_510(1) [OF lo hi] and hi' = range_510(2) [OF lo hi]
  have Spos: "0 < a * a + b * b"
    using square_bounds(3) [OF lo' hi'] powi_pos [of "- 1020"] by linarith
  have Npos: "0 < N"
    unfolding N_def using Spos by (simp only: real_sqrt_gt_0_iff)
  have Rpos: "0 < R"
    unfolding R_def using tlo powi_pos [of "- 500"] by linarith
  have eps0: "0 \<le> eps" and eta0: "0 \<le> eta" and eta1: "eta \<le> 1"
    by (simp_all add: eps_def eta_def power_int_minus field_simps)
  have E14: "0 \<le> 14 * eps" "14 * eps \<le> 1 / 4"
    by (simp_all add: eps_def power_int_minus field_simps)
  have fx': "is_finite (x (h' this))" and fy': "is_finite (y (h' this))"
    unfolding h'_def using a_def b_def fx fy lo' hi' by (rule normalize_double_error)+
  have ea: "\<bar>real_of (x (h' this)) - u\<bar> \<le> (14 * eps) * \<bar>u\<bar> + eta"
    unfolding h'_def u_def N_def eps_def eta_def using a_def b_def fx fy lo' hi'
    by (rule normalize_double_error)
  have eb: "\<bar>real_of (y (h' this)) - v\<bar> \<le> (14 * eps) * \<bar>v\<bar> + eta"
    unfolding h'_def v_def N_def eps_def eta_def using a_def b_def fx fy lo' hi'
    by (rule normalize_double_error)
  have unit: "u * u + v * v = 1"
    unfolding u_def v_def N_def using Spos by (rule unit_circle)
  have u1: "\<bar>u\<bar> \<le> 1" and v1: "\<bar>v\<bar> \<le> 1"
    using circle_components [of u v 1] unit by simp_all
  have te: "\<bar>real_of t - tv\<bar> \<le> 0 * \<bar>tv\<bar>"
    by (simp add: tv_def)
  have big: "(2 powi 500 :: real) \<le> 2 powi 1000"
    by (intro power_int_increasing) simp_all
  have ru: "\<bar>u * tv\<bar> \<le> 2 powi 1000"
  proof -
    have "\<bar>u * tv\<bar> = \<bar>u\<bar> * \<bar>tv\<bar>" by (rule abs_mult)
    also have "\<dots> \<le> 1 * \<bar>tv\<bar>"
      using u1 by (intro mult_right_mono) simp_all
    finally show ?thesis using thi big by linarith
  qed
  have rv: "\<bar>v * tv\<bar> \<le> 2 powi 1000"
  proof -
    have "\<bar>v * tv\<bar> = \<bar>v\<bar> * \<bar>tv\<bar>" by (rule abs_mult)
    also have "\<dots> \<le> 1 * \<bar>tv\<bar>"
      using v1 by (intro mult_right_mono) simp_all
    finally show ?thesis using thi big by linarith
  qed
  have rn: "eta * \<bar>tv\<bar> \<le> 2 powi 1000"
  proof -
    have "eta * \<bar>tv\<bar> \<le> 1 * \<bar>tv\<bar>"
      using eta1 by (intro mult_right_mono) simp_all
    then show ?thesis using thi big by linarith
  qed
  have comp: "h'' this = \<lparr>x = num_mul double (x (h' this)) t, y = num_mul double (y (h' this)) t\<rparr>"
    unfolding h''_def h'_def by (simp add: setMag_after_normalize)
  have z: "(0::real) \<le> 0" "(0::real) \<le> 1 / 4"
    by simp_all
  have fX: "is_finite (num_mul double (x (h' this)) t)"
    using fx' ft ea te E14 z eta0 ru rn by (rule product_error)
  have fY: "is_finite (num_mul double (y (h' this)) t)"
    using fy' ft eb te E14 z eta0 rv rn by (rule product_error)
  have c16: "14 * eps + 0 + 14 * eps * 0 + 2 * 2 powi (- 53) = 16 * eps"
    by (simp add: eps_def)
  have Xe: "\<bar>real_of (num_mul double (x (h' this)) t) - u * tv\<bar> \<le> (16 * eps) * \<bar>u * tv\<bar> + n"
    using product_error(2) [OF fx' ft ea te E14 z eta0 ru rn]
    unfolding c16 n_def eta_def by simp
  have Ye: "\<bar>real_of (num_mul double (y (h' this)) t) - v * tv\<bar> \<le> (16 * eps) * \<bar>v * tv\<bar> + n"
    using product_error(2) [OF fy' ft eb te E14 z eta0 rv rn]
    unfolding c16 n_def eta_def by simp
  have fx'': "is_finite (x (h'' this))" and fy'': "is_finite (y (h'' this))"
    using fX fY by (simp_all add: comp)
  have ea'': "\<bar>real_of (x (h'' this)) - u * tv\<bar> \<le> (16 * eps) * \<bar>u * tv\<bar> + n"
    using Xe by (simp add: comp)
  have eb'': "\<bar>real_of (y (h'' this)) - v * tv\<bar> \<le> (16 * eps) * \<bar>v * tv\<bar> + n"
    using Ye by (simp add: comp)
  have circle: "u * tv * (u * tv) + v * tv * (v * tv) = R * R"
  proof -
    have "u * tv * (u * tv) + v * tv * (v * tv) = (u * u + v * v) * (tv * tv)"
      by (simp add: algebra_simps)
    also have "\<dots> = R * R"
      by (simp add: unit R_def)
    finally show ?thesis .
  qed
  have Rlo: "2 powi (- 500) \<le> R" and Rhi: "R \<le> 2 powi 500"
    using tlo thi by (simp_all add: R_def)
  have E0: "0 \<le> 16 * eps" and E1: "16 * eps \<le> 1 / 64"
    by (simp_all add: eps_def power_int_minus field_simps)
  have n0: "0 \<le> n"
    using eta0 by (simp add: n_def)
  have six: "6 * eta \<le> eps / 2"
    by (simp add: eps_def eta_def power_int_minus field_simps)
  have two: "2 * eta \<le> eps / 2 * R"
  proof -
    have "2 * eta = 2 powi (- 1074)"
      by (simp add: eta_def power_int_minus field_simps)
    also have "\<dots> \<le> (2 powi (- 554) :: real)"
      by (intro power_int_increasing) simp_all
    also have "\<dots> = eps / 2 * 2 powi (- 500)"
      by (simp add: eps_def power_int_minus field_simps)
    also have "\<dots> \<le> eps / 2 * R"
      using Rlo eps0 by (intro mult_left_mono) simp_all
    finally show ?thesis .
  qed
  have n1: "2 * n \<le> 2 powi (- 53) * R"
  proof -
    have "6 * eta * R \<le> eps / 2 * R"
      using six Rpos by (intro mult_right_mono) simp_all
    then have "6 * eta * R + 2 * eta \<le> eps * R"
      using two by linarith
    then show ?thesis
      by (simp add: n_def R_def eps_def algebra_simps)
  qed
  show "is_finite (mag double this (snd (setMag double t this h)))"
    unfolding h''_def [symmetric]
    using refl refl fx'' fy'' ea'' eb'' circle Rlo Rhi E0 E1 n0 n1 by (rule mag_near)
  have "\<bar>real_of (mag double this h'') - R\<bar> \<le> (2 * (16 * eps) + 7 * 2 powi (- 53)) * R"
    using refl refl fx'' fy'' ea'' eb'' circle Rlo Rhi E0 E1 n0 n1 by (rule mag_near)
  also have "2 * (16 * eps) + 7 * 2 powi (- 53) = 39 * eps"
    by (simp add: eps_def)
  also have "39 * eps * R \<le> 64 * eps * R"
    using eps0 Rpos by (intro mult_right_mono) simp_all
  also have "64 * eps = 2 powi (- 47)"
    by (simp add: eps_def power_int_minus field_simps)
  finally show "\<bar>real_of (mag double this (snd (setMag double t this h))) - \<bar>tv\<bar>\<bar>
           \<le> 2 powi (- 47) * \<bar>tv\<bar>"
    by (simp only: h''_def R_def)
  have nle: "n \<le> 2 powi (- 573)"
  proof -
    have "3 * eta * \<bar>tv\<bar> \<le> 3 * eta * 2 powi 500"
      using thi eta0 by (intro mult_left_mono) simp_all
    then have "n \<le> 3 * eta * 2 powi 500 + eta"
      by (simp add: n_def)
    also have "\<dots> \<le> 2 powi (- 573)"
      by (simp add: eta_def power_int_minus field_simps)
    finally show ?thesis .
  qed
  have c49: "16 * eps = 2 powi (- 49)"
    by (simp add: eps_def power_int_minus field_simps)
  show "\<bar>real_of (x (snd (setMag double t this h) this)) - a * (1 / sqrt (a * a + b * b)) * tv\<bar>
           \<le> 2 powi (- 49) * \<bar>a * (1 / sqrt (a * a + b * b)) * tv\<bar> + 2 powi (- 573)"
    using ea'' nle unfolding c49 h''_def u_def N_def by linarith
  show "\<bar>real_of (y (snd (setMag double t this h) this)) - b * (1 / sqrt (a * a + b * b)) * tv\<bar>
           \<le> 2 powi (- 49) * \<bar>b * (1 / sqrt (a * a + b * b)) * tv\<bar> + 2 powi (- 573)"
    using eb'' nle unfolding c49 h''_def v_def N_def by linarith
qed

section \<open>Binary64 rounding is monotone\<close>

lemma round_half_even_le_floor_plus_1: "round_half_even q \<le> \<lfloor>q\<rfloor> + 1"
  by (simp add: round_half_even_def Let_def)

lemma round_half_even_mono:
  assumes "q1 \<le> q2"
  shows "round_half_even q1 \<le> round_half_even q2"
proof (cases "\<lfloor>q1\<rfloor> = \<lfloor>q2\<rfloor>")
  case True
  then show ?thesis
    using assms by (auto simp: round_half_even_def Let_def)
next
  case False
  moreover have "\<lfloor>q1\<rfloor> \<le> \<lfloor>q2\<rfloor>"
    using assms by (rule floor_mono)
  ultimately have "\<lfloor>q1\<rfloor> + 1 \<le> \<lfloor>q2\<rfloor>"
    by simp
  then show ?thesis
    using round_half_even_le_floor_plus_1 [of q1] round_half_even_ge_floor [of q2] by linarith
qed

lemma round_double_pos_value:
  assumes "0 < r" and "r < 2 powi 1023"
  shows "real_of (round_double r)
    = of_int (round_half_even (r / 2 powi (max \<lfloor>log 2 r\<rfloor> (- 1022) - 52)))
        * 2 powi (max \<lfloor>log 2 r\<rfloor> (- 1022) - 52)"
proof -
  define e where "e = max \<lfloor>log 2 r\<rfloor> (- 1022)"
  define u :: real where "u = 2 powi (e - 52)"
  define n where "n = round_half_even (r / u)"
  define m where "m = of_int n * u"
  have ar: "\<bar>r\<bar> = r" using assms(1) by simp
  have res: "round_double r =
      (if 2 ^ 1024 \<le> m then inf_of (r < 0)
       else if n = 0 then zero_of (r < 0)
       else Num (if r < 0 then - m else m))"
    by (simp add: round_double_def Let_def e_def u_def n_def m_def ar)
  have "is_finite (round_double r)"
    using assms by (intro round_double_error(1)) simp_all
  then have nov: "\<not> 2 ^ 1024 \<le> m"
    using assms(1) by (auto simp: res inf_of_def is_finite_def split: if_splits)
  have "real_of (round_double r) = m"
    using assms(1) nov by (auto simp: res zero_of_def m_def)
  then show ?thesis
    by (simp only: m_def n_def u_def e_def)
qed

lemma less_powi_floor_log2:
  assumes "0 < r"
  shows "r < 2 powi (\<lfloor>log 2 r\<rfloor> + 1)"
proof -
  have "r < 2 powr (of_int \<lfloor>log 2 r\<rfloor> + 1)"
    using floor_log_eq_powr_iff [of r 2 "\<lfloor>log 2 r\<rfloor>"] assms by simp
  moreover have "2 powr (of_int \<lfloor>log 2 r\<rfloor> + 1) = (2 powi (\<lfloor>log 2 r\<rfloor> + 1) :: real)"
    using powr_real_of_int' [of 2 "\<lfloor>log 2 r\<rfloor> + 1"] by simp
  ultimately show ?thesis by simp
qed

lemma round_double_mono:
  assumes "0 < r1" and "r1 \<le> r2" and "r2 < 2 powi 1023"
  shows "real_of (round_double r1) \<le> real_of (round_double r2)"
proof -
  define e1 where "e1 = max \<lfloor>log 2 r1\<rfloor> (- 1022)"
  define e2 where "e2 = max \<lfloor>log 2 r2\<rfloor> (- 1022)"
  define u1 :: real where "u1 = 2 powi (e1 - 52)"
  define u2 :: real where "u2 = 2 powi (e2 - 52)"
  define n1 where "n1 = round_half_even (r1 / u1)"
  define n2 where "n2 = round_half_even (r2 / u2)"
  have r2pos: "0 < r2" using assms(1,2) by linarith
  have r1lt: "r1 < 2 powi 1023" using assms(2,3) by linarith
  have v1: "real_of (round_double r1) = of_int n1 * u1"
    unfolding n1_def u1_def e1_def using assms(1) r1lt by (rule round_double_pos_value)
  have v2: "real_of (round_double r2) = of_int n2 * u2"
    unfolding n2_def u2_def e2_def using r2pos assms(3) by (rule round_double_pos_value)
  have u1pos: "0 < u1" and u2pos: "0 < u2"
    by (simp_all add: u1_def u2_def)
  have "log 2 r1 \<le> log 2 r2"
    using assms(1,2) by simp
  then have "\<lfloor>log 2 r1\<rfloor> \<le> \<lfloor>log 2 r2\<rfloor>"
    by (rule floor_mono)
  then have ele: "e1 \<le> e2"
    by (simp add: e1_def e2_def)
  show ?thesis
  proof (cases "e1 = e2")
    case True
    then have u: "u1 = u2" by (simp add: u1_def u2_def)
    have "r1 / u2 \<le> r2 / u2"
      using assms(2) u2pos by (intro divide_right_mono) simp_all
    then have "n1 \<le> n2"
      unfolding n1_def n2_def u by (rule round_half_even_mono)
    then have "real_of_int n1 \<le> of_int n2" by simp
    then have "of_int n1 * u2 \<le> of_int n2 * u2"
      using u2pos by (intro mult_right_mono) simp_all
    then show ?thesis
      by (simp only: v1 v2 u)
  next
    case False
    then have lt: "e1 + 1 \<le> e2" using ele by simp
    define f2 where "f2 = \<lfloor>log 2 r2\<rfloor>"
    have "- 1022 \<le> e1"
      by (simp add: e1_def)
    then have "- 1022 < e2"
      using lt by linarith
    moreover have "e2 = max f2 (- 1022)"
      by (simp only: e2_def f2_def)
    ultimately have "e2 = f2"
      by (simp add: max_def split: if_splits)
    then have e2n: "e2 = \<lfloor>log 2 r2\<rfloor>"
      by (simp only: f2_def)
    have "2 powi e2 \<le> r2"
      unfolding e2n using r2pos by (rule powi_floor_log2_le)
    then have "2 powi e2 / u2 \<le> r2 / u2"
      using u2pos by (intro divide_right_mono) simp_all
    moreover have "2 powi e2 / u2 = (2::real) ^ 52"
      by (simp add: u2_def power_int_diff)
    ultimately have "(2::real) ^ 52 \<le> r2 / u2" by simp
    then have "(2::int) ^ 52 \<le> \<lfloor>r2 / u2\<rfloor>"
      by (simp add: le_floor_iff)
    also have "\<dots> \<le> n2"
      unfolding n2_def by (rule round_half_even_ge_floor)
    finally have "real_of_int (2 ^ 52) \<le> of_int n2"
      by (simp only: of_int_le_iff)
    then have "of_int (2 ^ 52) * u2 \<le> of_int n2 * u2"
      using u2pos by (intro mult_right_mono) simp_all
    moreover have "real_of_int (2 ^ 52) * u2 = 2 powi e2"
      by (simp add: u2_def power_int_diff)
    ultimately have lo2: "2 powi e2 \<le> of_int n2 * u2" by simp
    have "r1 < 2 powi (\<lfloor>log 2 r1\<rfloor> + 1)"
      using assms(1) by (rule less_powi_floor_log2)
    also have "\<dots> \<le> 2 powi (e1 + 1)"
      by (intro power_int_increasing) (simp_all add: e1_def)
    finally have "r1 / u1 < 2 powi (e1 + 1) / u1"
      using u1pos by (intro divide_strict_right_mono) simp_all
    moreover have "2 powi (e1 + 1) / u1 = (2::real) ^ 53"
      by (simp add: u1_def power_int_diff power_int_add)
    ultimately have "r1 / u1 < real_of_int (2 ^ 53)" by simp
    then have "\<lfloor>r1 / u1\<rfloor> < 2 ^ 53"
      by (simp only: floor_less_iff)
    moreover define F where "F = \<lfloor>r1 / u1\<rfloor>"
    moreover define B :: int where "B = 2 ^ 53"
    moreover have "n1 \<le> F + 1"
      unfolding n1_def F_def by (rule round_half_even_le_floor_plus_1)
    ultimately have "n1 \<le> B"
      by linarith
    then have "real_of_int n1 \<le> of_int (2 ^ 53)"
      by (simp only: of_int_le_iff B_def)
    then have "of_int n1 * u1 \<le> of_int (2 ^ 53) * u1"
      using u1pos by (intro mult_right_mono) simp_all
    moreover have "real_of_int (2 ^ 53) * u1 = 2 powi (e1 + 1)"
      by (simp add: u1_def power_int_diff power_int_add)
    ultimately have "of_int n1 * u1 \<le> 2 powi (e1 + 1)" by simp
    also have "(2 powi (e1 + 1) :: real) \<le> 2 powi e2"
      using lt by (intro power_int_increasing) simp_all
    finally show ?thesis
      using lo2 unfolding v1 v2 by linarith
  qed
qed

lemma double_mono:
  assumes "0 \<le> r1" and "r1 \<le> r2" and "r2 < 2 powi 1023"
  shows "real_of (double s1 r1) \<le> real_of (double s2 r2)"
proof (cases "r1 = 0")
  case True
  have "\<bar>r2\<bar> < 2 powi 1023" using assms by simp
  moreover have "0 \<le> r2" using assms by linarith
  ultimately have "0 \<le> real_of (double s2 r2)"
    by (intro double_nonneg)
  moreover have "real_of (double s1 r1) = 0"
    using True by (simp add: double_def zero_of_def)
  ultimately show ?thesis
    by linarith
next
  case False
  then have "0 < r1" using assms(1) by simp
  moreover from this have "r2 \<noteq> 0" using assms(2) by linarith
  ultimately show ?thesis
    using False assms(2,3) by (simp add: double_def round_double_mono)
qed

section \<open>The range of \<^verbatim>\<open>Math.acos\<close> in binary64\<close>

lemma pi_small: "pi < 2 powi 1023"
proof -
  have "(4::real) = 2 powi 2" by simp
  also have "\<dots> \<le> 2 powi 1023"
    by (intro power_int_increasing) simp_all
  finally show ?thesis
    using pi_less_4 by linarith
qed

lemma Math_acos_double_range:
  "Math_acos double a = NaN \<or>
   is_finite (Math_acos double a) \<and> 0 \<le> real_of (Math_acos double a) \<and>
     real_of (Math_acos double a) \<le> real_of (Math_PI double)"
proof -
  have range: "is_finite (double False (arccos r)) \<and> 0 \<le> real_of (double False (arccos r)) \<and>
      real_of (double False (arccos r)) \<le> real_of (Math_PI double)"
    if "- 1 \<le> r" and "r \<le> 1" for r
  proof -
    have lo: "0 \<le> arccos r" and hi: "arccos r \<le> pi"
      using that by (simp_all add: arccos_lbound arccos_ubound)
    have small: "\<bar>arccos r\<bar> < 2 powi 1023"
      using lo hi pi_small by simp
    have "is_finite (double False (arccos r))"
      using small by (rule double_is_finite)
    moreover have "0 \<le> real_of (double False (arccos r))"
      using lo small by (rule double_nonneg)
    moreover have "real_of (double False (arccos r)) \<le> real_of (Math_PI double)"
      unfolding Math_PI_def using lo hi pi_small by (rule double_mono)
    ultimately show ?thesis by blast
  qed
  show ?thesis
  proof (cases a)
    case (Num r)
    then show ?thesis
      using range [of r] by (simp add: Math_acos_def)
  next
    case NZero
    then show ?thesis
      using range [of 0] by (simp add: Math_acos_def)
  qed (simp_all add: Math_acos_def)
qed

section \<open>The properties of the class\<close>

subsection \<open>\<^verbatim>\<open>toPolar\<close> and \<^verbatim>\<open>toCartesian\<close>\<close>

text \<open>
  C1. \<^verbatim>\<open>toPolar()\<close> and \<^verbatim>\<open>toCartesian()\<close> are declared for the class in
  \<^verbatim>\<open>vec2.d.ts\<close> and described in the README, but the class body of
  \<^verbatim>\<open>vec2.js\<close> defines neither: a call of either name throws a TypeError, and
  there is no conversion to take a round trip through.
\<close>

theorem toPolar_toCartesian_not_defined:
  "''toPolar'' \<in> set vec2_declared \<and> ''toCartesian'' \<in> set vec2_declared \<and>
   call_method ''toPolar'' = Inl TypeError \<and> call_method ''toCartesian'' = Inl TypeError"
  by (simp add: call_method_def vec2_methods_def vec2_declared_def
      object_prototype_methods_def)

subsection \<open>\<^verbatim>\<open>normalize\<close>\<close>

text \<open>
  C2, as amended. \<^verbatim>\<open>normalize()\<close> returns its receiver. When the magnitude it
  computes is exactly zero (the test is \<^verbatim>\<open>m == 0\<close>) the heap is left as it was, no
  division being reached; otherwise both components are multiplied by
  \<^verbatim>\<open>1 / mag()\<close>. These hold in every arithmetic. In exact real arithmetic and for
  finite components, the resulting magnitude is then 1. In binary64 arithmetic, for
  finite components the larger of which lies between \<^verbatim>\<open>2^-500\<close> and \<^verbatim>\<open>2^500\<close> in
  absolute value, the magnitude is not zero and the resulting magnitude is within
  \<^verbatim>\<open>2^-47\<close> of 1.
\<close>

theorem normalize_v_policy:
  "fst (normalize_v rd this h) = this \<and>
   (js_eq (mag rd this h) (Num 0) \<longrightarrow> snd (normalize_v rd this h) = h) \<and>
   (\<not> js_eq (mag rd this h) (Num 0) \<longrightarrow>
      snd (normalize_v rd this h) =
        h(this := \<lparr>x = num_mul rd (x (h this)) (num_div rd (Num 1) (mag rd this h)),
                     y = num_mul rd (y (h this)) (num_div rd (Num 1) (mag rd this h))\<rparr>)) \<and>
   (x (h this) = Num a \<and> y (h this) = Num b \<and> \<not> js_eq (mag exact this h) (Num 0) \<longrightarrow>
      mag exact this (snd (normalize_v exact this h)) = Num 1) \<and>
   (is_finite (x (h this)) \<and> is_finite (y (h this)) \<and>
    2 powi (- 500) \<le> max \<bar>real_of (x (h this))\<bar> \<bar>real_of (y (h this))\<bar> \<and>
    max \<bar>real_of (x (h this))\<bar> \<bar>real_of (y (h this))\<bar> \<le> 2 powi 500 \<longrightarrow>
      \<not> js_eq (mag double this h) (Num 0) \<and>
      is_finite (mag double this (snd (normalize_v double this h))) \<and>
      \<bar>real_of (mag double this (snd (normalize_v double this h))) - 1\<bar> \<le> 2 powi (- 47))"
proof (intro conjI impI)
  show "fst (normalize_v rd this h) = this"
    by (rule normalize_v_returns_this)
next
  assume "js_eq (mag rd this h) (Num 0)"
  then show "snd (normalize_v rd this h) = h"
    by (simp add: normalize_v_zero)
next
  assume "\<not> js_eq (mag rd this h) (Num 0)"
  then show "snd (normalize_v rd this h) =
      h(this := \<lparr>x = num_mul rd (x (h this)) (num_div rd (Num 1) (mag rd this h)),
                   y = num_mul rd (y (h this)) (num_div rd (Num 1) (mag rd this h))\<rparr>)"
    by (simp add: normalize_v_nonzero scale_def vec2_update_both)
next
  assume fin: "x (h this) = Num a \<and> y (h this) = Num b \<and> \<not> js_eq (mag exact this h) (Num 0)"
  then have nz: "a \<noteq> 0 \<or> b \<noteq> 0"
    by (auto simp: mag_finite_zero_iff)
  have "normalize_v exact this h = setMag exact (Num 1) this h"
    using fin nz by (simp add: setMag_finite normalize_v_finite)
  then show "mag exact this (snd (normalize_v exact this h)) = Num 1"
    using fin nz setMag_finite_mag [of h this a b 1] by simp
next
  assume r: "is_finite (x (h this)) \<and> is_finite (y (h this)) \<and>
    2 powi (- 500) \<le> max \<bar>real_of (x (h this))\<bar> \<bar>real_of (y (h this))\<bar> \<and>
    max \<bar>real_of (x (h this))\<bar> \<bar>real_of (y (h this))\<bar> \<le> 2 powi 500"
  then have fx: "is_finite (x (h this))" and fy: "is_finite (y (h this))"
    and lo: "2 powi (- 500) \<le> max \<bar>real_of (x (h this))\<bar> \<bar>real_of (y (h this))\<bar>"
    and hi: "max \<bar>real_of (x (h this))\<bar> \<bar>real_of (y (h this))\<bar> \<le> 2 powi 500"
    by blast+
  note lo' = range_510(1) [OF lo hi] and hi' = range_510(2) [OF lo hi]
  show "\<not> js_eq (mag double this h) (Num 0)"
    using refl refl fx fy lo' hi' by (rule normalize_double_factor)
  show "is_finite (mag double this (snd (normalize_v double this h)))"
    using refl refl fx fy lo hi by (rule normalize_double_magnitude)
  show "\<bar>real_of (mag double this (snd (normalize_v double this h))) - 1\<bar> \<le> 2 powi (- 47)"
    using refl refl fx fy lo hi by (rule normalize_double_magnitude)
qed

theorem normalize_v_policy_witness:
  "\<not> js_eq (mag exact 5 (snd (new_vec2 (Some (Num 3)) (Some (Num 4)) 5 initial_heap))) (Num 0) \<and>
   snd (normalize_v exact 5 (snd (new_vec2 (Some (Num 3)) (Some (Num 4)) 5 initial_heap))) 5
     = \<lparr>x = Num (3 / 5), y = Num (4 / 5)\<rparr> \<and>
   mag exact 5 (snd (normalize_v exact 5 (snd (new_vec2 (Some (Num 3)) (Some (Num 4)) 5 initial_heap))))
     = Num 1 \<and>
   js_eq (mag double 5 (snd (new_vec2 None None 5 initial_heap))) (Num 0) \<and>
   snd (normalize_v double 5 (snd (new_vec2 None None 5 initial_heap)))
     = snd (new_vec2 None None 5 initial_heap) \<and>
   \<bar>real_of (mag double 5
      (snd (normalize_v double 5 (snd (new_vec2 (Some (Num 3)) (Some (Num 4)) 5 initial_heap))))) - 1\<bar>
     \<le> 2 powi (- 47)"
proof -
  let ?H = "snd (new_vec2 (Some (Num 3)) (Some (Num 4)) 5 initial_heap)"
  let ?Z = "snd (new_vec2 None None 5 initial_heap)"
  have sq: "sqrt 25 = 5"
    by (rule real_sqrt_unique) simp_all
  have xy: "x (?H 5) = Num 3 \<and> y (?H 5) = Num 4"
    by (simp add: new_vec2_def constructor_def)
  then have m: "mag exact 5 ?H = Num 5"
    by (simp add: mag_finite sq)
  have "x (?Z 5) = Num 0" and "y (?Z 5) = Num 0"
    by (simp_all add: new_vec2_def constructor_def)
  then have "mag double 5 ?Z = Num 0"
    by (rule zero_vector_mag)
  then have z: "js_eq (mag double 5 ?Z) (Num 0)"
    by (simp add: js_eq_def)
  have nz: "\<not> js_eq (mag exact 5 ?H) (Num 0)"
    by (simp add: m js_eq_Num)
  have unit: "mag exact 5 (snd (normalize_v exact 5 ?H)) = Num 1"
    using normalize_v_policy [of exact 5 ?H 3 4] xy nz by blast
  have "snd (normalize_v exact 5 ?H) =
      ?H(5 := \<lparr>x = num_mul exact (x (?H 5)) (num_div exact (Num 1) (mag exact 5 ?H)),
                y = num_mul exact (y (?H 5)) (num_div exact (Num 1) (mag exact 5 ?H))\<rparr>)"
    using normalize_v_policy [of exact 5 ?H 3 4] nz by blast
  then have comps: "snd (normalize_v exact 5 ?H) 5 = \<lparr>x = Num (3 / 5), y = Num (4 / 5)\<rparr>"
    by (simp add: m xy exact_simps)
  have same: "snd (normalize_v double 5 ?Z) = ?Z"
    using normalize_v_policy [of double 5 ?Z 0 0] z by blast
  have fin: "is_finite (x (?H 5)) \<and> is_finite (y (?H 5))"
    by (simp add: xy is_finite_def)
  have "(2 powi (- 500) :: real) \<le> 2 powi 2" and "(2 powi 2 :: real) \<le> 2 powi 500"
    by (intro power_int_increasing; simp)+
  then have range: "2 powi (- 500) \<le> max \<bar>real_of (x (?H 5))\<bar> \<bar>real_of (y (?H 5))\<bar> \<and>
      max \<bar>real_of (x (?H 5))\<bar> \<bar>real_of (y (?H 5))\<bar> \<le> 2 powi 500"
    by (simp add: xy)
  have near: "\<bar>real_of (mag double 5 (snd (normalize_v double 5 ?H))) - 1\<bar> \<le> 2 powi (- 47)"
    using normalize_v_policy [of double 5 ?H 3 4] fin range by blast
  show ?thesis
    by (intro conjI) (fact nz comps unit z same near)+
qed

text \<open>
  C2, as stated, fails at the finite vector \<^verbatim>\<open>new vec2(2 ** 600, 0)\<close>: the squared
  magnitude overflows to \<^verbatim>\<open>Infinity\<close>, so the magnitude is not zero, the factor
  \<^verbatim>\<open>1 / mag()\<close> is 0, and the result is the zero vector, of magnitude 0 and not 1.
\<close>

theorem normalize_v_overflow:
  "\<not> js_eq (mag double 5 (snd (new_vec2 (Some (Num (2 ^ 600))) (Some (Num 0)) 5 initial_heap)))
      (Num 0) \<and>
   snd (normalize_v double 5 (snd (new_vec2 (Some (Num (2 ^ 600))) (Some (Num 0)) 5 initial_heap))) 5
     = \<lparr>x = Num 0, y = Num 0\<rparr> \<and>
   mag double 5
     (snd (normalize_v double 5 (snd (new_vec2 (Some (Num (2 ^ 600))) (Some (Num 0)) 5 initial_heap))))
     = Num 0"
proof -
  let ?H = "snd (new_vec2 (Some (Num (2 ^ 600))) (Some (Num 0)) 5 initial_heap)"
  have vx: "x (?H 5) = Num (2 ^ 600)" and vy: "y (?H 5) = Num 0"
    by (simp_all add: new_vec2_def constructor_def)
  have c1: "\<not> js_eq (mag double 5 ?H) (Num 0)"
    using overflowing_mag [of ?H 5 "2 ^ 600"] vx vy round_double_2_1200 by simp
  have n: "normalize_v double 5 ?H = (5, ?H(5 := \<lparr>x = Num 0, y = Num 0\<rparr>))"
    using overflowing_normalize [of ?H 5 "2 ^ 600"] vx vy round_double_2_1200 by simp
  then have c2: "snd (normalize_v double 5 ?H) 5 = \<lparr>x = Num 0, y = Num 0\<rparr>"
    by simp
  have "x (snd (normalize_v double 5 ?H) 5) = Num 0"
   and "y (snd (normalize_v double 5 ?H) 5) = Num 0"
    unfolding c2 by simp_all
  then have c3: "mag double 5 (snd (normalize_v double 5 ?H)) = Num 0"
    by (rule zero_vector_mag)
  show ?thesis
    by (intro conjI) (fact c1 c2 c3)+
qed

subsection \<open>\<^verbatim>\<open>setDirection\<close>\<close>




subsection \<open>\<^verbatim>\<open>norm\<close> and the mathematical p-norm\<close>

text \<open>
  C4, as amended. In every arithmetic, \<^verbatim>\<open>norm(p)\<close> is \<^verbatim>\<open>(x^p + y^p)^(1/p)\<close> with the
  signed components raised to the power directly. In exact real arithmetic, for finite
  components, the result is the mathematical p-norm only when both components are
  non-negative or \<open>p\<close> is an even integer.
\<close>

theorem norm_v_signed_powers:
  "norm_v rd (Some p) this h
     = Math_pow rd (num_add rd (Math_pow rd (x (h this)) p) (Math_pow rd (y (h this)) p))
         (num_div rd (Num 1) p) \<and>
   (x (h this) = Num a \<and> y (h this) = Num b \<and> p_norm e a b = Some v \<and>
    norm_v exact (Some (Num e)) this h = Num v \<longrightarrow>
      0 \<le> a \<and> 0 \<le> b \<or> is_even_integer e)"
proof (intro conjI impI)
  show "norm_v rd (Some p) this h
      = Math_pow rd (num_add rd (Math_pow rd (x (h this)) p) (Math_pow rd (y (h this)) p))
          (num_div rd (Num 1) p)"
    by (simp only: norm_v_def dflt.simps Let_def)
next
  assume asm: "x (h this) = Num a \<and> y (h this) = Num b \<and> p_norm e a b = Some v \<and>
    norm_v exact (Some (Num e)) this h = Num v"
  then have epos: "0 < e" and v: "v = (\<bar>a\<bar> powr e + \<bar>b\<bar> powr e) powr (1 / e)"
    by (auto simp: p_norm_def split: if_splits)
  show "0 \<le> a \<and> 0 \<le> b \<or> is_even_integer e"
  proof (rule ccontr)
    assume "\<not> (0 \<le> a \<and> 0 \<le> b \<or> is_even_integer e)"
    then have "a < 0 \<or> b < 0" and "\<not> is_even_integer e"
      by auto
    moreover from asm have "x (h this) = Num a" and "y (h this) = Num b"
      by simp_all
    ultimately have "norm_v exact (Some (Num e)) this h
        \<noteq> Num ((\<bar>a\<bar> powr e + \<bar>b\<bar> powr e) powr (1 / e))"
      using epos norm_v_differs [of h this a b e] by blast
    moreover from asm v have "norm_v exact (Some (Num e)) this h
        = Num ((\<bar>a\<bar> powr e + \<bar>b\<bar> powr e) powr (1 / e))"
      by blast
    ultimately show False
      by blast
  qed
qed

theorem norm_v_signed_powers_witness:
  "p_norm 1 (- 2) 3 = Some 5 \<and>
   norm_v exact (Some (Num 1)) 5 (snd (new_vec2 (Some (Num (- 2))) (Some (Num 3)) 5 initial_heap))
     \<noteq> Num 5"
proof -
  let ?H = "snd (new_vec2 (Some (Num (- 2))) (Some (Num 3)) 5 initial_heap)"
  have pn: "p_norm 1 (- 2) 3 = Some 5"
    by (simp add: p_norm_def)
  have xy: "x (?H 5) = Num (- 2)" "y (?H 5) = Num 3"
    by (simp_all add: new_vec2_def constructor_def)
  have no: "\<not> ((0::real) \<le> - 2 \<and> (0::real) \<le> 3 \<or> is_even_integer 1)"
    by (simp add: is_even_integer_def)
  have c2: "norm_v exact (Some (Num 1)) 5 ?H \<noteq> Num 5"
    using norm_v_signed_powers [of exact "Num 1" 5 ?H "- 2" 3 1 5] xy pn no by blast
  show ?thesis
    by (intro conjI) (fact pn c2)+
qed

text \<open>
  C4, as stated, fails at \<^verbatim>\<open>new vec2(-(2 ** -60), 1).norm(1)\<close>: the first component
  is negative and 1 is odd, yet the result is 1, which is also the binary64 value of
  the mathematical 1-norm \<^verbatim>\<open>1 + 2 ** -60\<close> and the result of \<^verbatim>\<open>norm(1)\<close> on the
  absolute values \<^verbatim>\<open>(2 ** -60, 1)\<close>: the sums round to 1 either way.
\<close>

theorem norm_v_rounding_agrees:
  "norm_v double (Some (Num 1)) 5
     (snd (new_vec2 (Some (Num (- (1 / 2 ^ 60)))) (Some (Num 1)) 5 initial_heap)) = Num 1 \<and>
   p_norm 1 (- (1 / 2 ^ 60)) 1 = Some (1 + 1 / 2 ^ 60) \<and>
   double False (1 + 1 / 2 ^ 60) = Num 1 \<and>
   norm_v double (Some (Num 1)) 5
     (snd (new_vec2 (Some (Num (1 / 2 ^ 60))) (Some (Num 1)) 5 initial_heap)) = Num 1 \<and>
   \<not> is_even_integer 1"
proof -
  let ?H = "snd (new_vec2 (Some (Num (- (1 / 2 ^ 60)))) (Some (Num 1)) 5 initial_heap)"
  let ?A = "snd (new_vec2 (Some (Num (1 / 2 ^ 60))) (Some (Num 1)) 5 initial_heap)"
  have vx: "x (?H 5) = Num (- (1 / 2 ^ 60))" and vy: "y (?H 5) = Num 1"
   and ax: "x (?A 5) = Num (1 / 2 ^ 60)" and ay: "y (?A 5) = Num 1"
    by (simp_all add: new_vec2_def constructor_def)
  have rt: "round_double (1 / 2 ^ 60) = Num (1 / 2 ^ 60)"
    using round_double_powi_normal [of "- 60"] by simp
  have below: "round_double (- (1 / 2 ^ 60) + 1) = Num 1"
    using round_double_below_1 by simp
  have above: "round_double (1 / 2 ^ 60 + 1) = Num 1"
    using round_double_above_1 by (simp add: add.commute)
  have pt: "Math_pow double (Num (1 / 2 ^ 60)) (Num 1) = Num (1 / 2 ^ 60)"
    using rt by (intro pow_one_double) simp_all
  have pm: "Math_pow double (Num (- (1 / 2 ^ 60))) (Num 1) = Num (- (1 / 2 ^ 60))"
    using rt by (intro pow_one_double_neg) simp_all
  have p1: "Math_pow double (Num 1) (Num 1) = Num 1"
    using round_double_1 by (intro pow_one_double) simp_all
  have c1: "norm_v double (Some (Num 1)) 5 ?H = Num 1"
    using vx vy pm p1 below by (intro norm_1_double [of ?H 5 "- (1 / 2 ^ 60)" 1 1]) simp_all
  have c2: "p_norm 1 (- (1 / 2 ^ 60)) 1 = Some (1 + 1 / 2 ^ 60)"
    by (simp add: p_norm_def)
  have c3: "double False (1 + 1 / 2 ^ 60) = Num 1"
    using round_double_above_1 by (simp add: double_def)
  have c4: "norm_v double (Some (Num 1)) 5 ?A = Num 1"
    using ax ay pt p1 above by (intro norm_1_double [of ?A 5 "1 / 2 ^ 60" 1 1]) simp_all
  have c5: "\<not> is_even_integer 1"
    by (simp add: is_even_integer_def)
  show ?thesis
    by (intro conjI) (fact c1 c2 c3 c4 c5)+
qed

subsection \<open>\<^verbatim>\<open>hadamard\<close>\<close>

text \<open>
  C5. \<^verbatim>\<open>hadamard(other)\<close> is declared in \<^verbatim>\<open>vec2.d.ts\<close> and described in the
  README, but the class body of \<^verbatim>\<open>vec2.js\<close> does not define it: the call
  \<^verbatim>\<open>new vec2(2, 3).hadamard({x: 4, y: 5})\<close> throws a TypeError.
\<close>

theorem hadamard_not_defined:
  "''hadamard'' \<in> set vec2_declared \<and> call_method ''hadamard'' = Inl TypeError"
  by (simp add: call_method_def vec2_methods_def vec2_declared_def
      object_prototype_methods_def)

subsection \<open>\<^verbatim>\<open>norm(1)\<close> of the vector (2, 3)\<close>

text \<open>
  C6, as amended. \<^verbatim>\<open>new vec2(2, 3).norm(1)\<close> is 5, the sum of the two components, on
  whatever object the allocator hands out, in binary64 arithmetic and in exact
  arithmetic.
\<close>

theorem norm_1_of_2_3:
  "norm_v double (Some (Num 1)) r (snd (new_vec2 (Some (Num 2)) (Some (Num 3)) r h)) = Num 5 \<and>
   norm_v exact (Some (Num 1)) r (snd (new_vec2 (Some (Num 2)) (Some (Num 3)) r h)) = Num 5"
proof
  let ?H = "snd (new_vec2 (Some (Num 2)) (Some (Num 3)) r h)"
  have vx: "x (?H r) = Num 2" and vy: "y (?H r) = Num 3"
    by (simp_all add: new_vec2_def constructor_def)
  have p2: "Math_pow double (Num 2) (Num 1) = Num 2"
    using round_double_2 by (intro pow_one_double) simp_all
  have p3: "Math_pow double (Num 3) (Num 1) = Num 3"
    using round_double_3 by (intro pow_one_double) simp_all
  have p5: "Math_pow double (Num 5) (Num 1) = Num 5"
    using round_double_5 by (intro pow_one_double) simp_all
  have s: "round_double (2 + 3) = Num 5"
    using round_double_5 by simp
  show "norm_v double (Some (Num 1)) r ?H = Num 5"
    using norm_1_double [of ?H r 2 3 5] vx vy p2 p3 p5 s by simp
  show "norm_v exact (Some (Num 1)) r ?H = Num 5"
    by (simp add: norm_v_def vx vy Math_pow_def exact_def num_add_def num_div_def)
qed

text \<open>C6, as stated, fails: the value is not 7.\<close>

theorem norm_1_of_2_3_is_not_7:
  "norm_v double (Some (Num 1)) 5 (snd (new_vec2 (Some (Num 2)) (Some (Num 3)) 5 initial_heap))
     \<noteq> Num 7"
proof -
  let ?H = "snd (new_vec2 (Some (Num 2)) (Some (Num 3)) 5 initial_heap)"
  have vx: "x (?H 5) = Num 2" and vy: "y (?H 5) = Num 3"
    by (simp_all add: new_vec2_def constructor_def)
  have p2: "Math_pow double (Num 2) (Num 1) = Num 2"
    using round_double_2 by (intro pow_one_double) simp_all
  have p3: "Math_pow double (Num 3) (Num 1) = Num 3"
    using round_double_3 by (intro pow_one_double) simp_all
  have p5: "Math_pow double (Num 5) (Num 1) = Num 5"
    using round_double_5 by (intro pow_one_double) simp_all
  have s: "round_double (2 + 3) = Num 5"
    using round_double_5 by simp
  have "norm_v double (Some (Num 1)) 5 ?H = Num 5"
    using norm_1_double [of ?H 5 2 3 5] vx vy p2 p3 p5 s by simp
  then show ?thesis by simp
qed

subsection \<open>\<^verbatim>\<open>setMag\<close> on a zero vector\<close>

text \<open>
  C7, as amended. For every finite target \<open>t\<close>, \<^verbatim>\<open>setMag(t)\<close> on a vector whose two
  components are zero returns the receiver and leaves both components zero, in binary64
  arithmetic and in exact arithmetic alike; no error is raised (the method has no error
  result).
\<close>

theorem setMag_zero_vector:
  assumes "rd = double \<or> rd = exact"
      and "is_zero (x (h this))" and "is_zero (y (h this))"
      and "t \<noteq> NaN" and "\<not> is_inf t"
  shows "fst (setMag rd t this h) = this \<and>
         is_zero (x (snd (setMag rd t this h) this)) \<and>
         is_zero (y (snd (setMag rd t this h) this))"
proof -
  have z: "is_zero (rd True 0)" "is_zero (rd False 0)"
    using assms(1) exact_zero double_zero_is_zero by auto
  have "js_eq (mag rd this h) (Num 0)"
    using z assms(2,3) by (rule zero_vector_mag_any)
  then have "setMag rd t this h = scale rd t this h"
    by (simp add: setMag_def normalize_v_zero)
  moreover have "is_zero (num_mul rd (x (h this)) t)" and "is_zero (num_mul rd (y (h this)) t)"
    using z assms(2-5) by (simp_all add: zero_times_finite)
  ultimately show ?thesis
    by (simp add: scale_def)
qed

theorem setMag_zero_vector_witness:
  "snd (setMag double (Num (- 3)) 5 (snd (new_vec2 None None 5 initial_heap))) 5
     = \<lparr>x = NZero, y = NZero\<rparr> \<and>
   is_zero (x (snd (setMag double (Num (- 3)) 5 (snd (new_vec2 None None 5 initial_heap))) 5)) \<and>
   is_zero (y (snd (setMag double (Num (- 3)) 5 (snd (new_vec2 None None 5 initial_heap))) 5))"
proof -
  let ?Z = "snd (new_vec2 None None 5 initial_heap)"
  have zx: "is_zero (x (?Z 5))" and zy: "is_zero (y (?Z 5))"
    by (simp_all add: new_vec2_def constructor_def)
  have fin: "Num (- 3) \<noteq> NaN" "\<not> is_inf (Num (- 3))"
    by simp_all
  have rd: "double = double \<or> double = exact"
    by simp
  note inst = setMag_zero_vector [of double ?Z 5 "Num (- 3)", OF rd zx zy fin]
  have c1: "snd (setMag double (Num (- 3)) 5 ?Z) 5 = \<lparr>x = NZero, y = NZero\<rparr>"
    by (simp add: setMag_def normalize_v_def scale_def mag_def magSq_def Math_sqrt_def
        num_mul_def num_add_def js_eq_def double_def zero_of_def new_vec2_def constructor_def
        Let_def)
  show ?thesis
    using inst c1 by blast
qed

text \<open>
  C7, as stated, fails twice. The finite vector \<^verbatim>\<open>new vec2(2 ** -600, 0)\<close> has a
  magnitude of exactly zero, its square underflowing, and \<^verbatim>\<open>setMag(2)\<close> doubles it to
  \<^verbatim>\<open>(2 ** -599, 0)\<close>, which is not the zero vector. And on the zero vector the target
  \<^verbatim>\<open>Infinity\<close> leaves \<^verbatim>\<open>(NaN, NaN)\<close>.
\<close>

theorem setMag_zero_magnitude_underflow:
  "js_eq (mag double 5 (snd (new_vec2 (Some (Num (1 / 2 ^ 600))) (Some (Num 0)) 5 initial_heap)))
     (Num 0) \<and>
   snd (setMag double (Num 2) 5
          (snd (new_vec2 (Some (Num (1 / 2 ^ 600))) (Some (Num 0)) 5 initial_heap))) 5
     = \<lparr>x = Num (1 / 2 ^ 599), y = Num 0\<rparr> \<and>
   snd (setMag double PInf 5 (snd (new_vec2 None None 5 initial_heap))) 5 = \<lparr>x = NaN, y = NaN\<rparr>"
proof -
  let ?H = "snd (new_vec2 (Some (Num (1 / 2 ^ 600))) (Some (Num 0)) 5 initial_heap)"
  let ?Z = "snd (new_vec2 None None 5 initial_heap)"
  have vx: "x (?H 5) = Num (1 / 2 ^ 600)" and vy: "y (?H 5) = Num 0"
    by (simp_all add: new_vec2_def constructor_def)
  have under: "round_double (1 / 2 ^ 600 * (1 / 2 ^ 600)) = Num 0"
    using round_double_powi_underflow [of "- 1200"] by simp
  have twice: "round_double (1 / 2 ^ 600 * 2) = Num (1 / 2 ^ 599)"
    using round_double_powi_normal [of "- 599"] by simp
  have sq: "num_mul double (Num (1 / 2 ^ 600)) (Num (1 / 2 ^ 600)) = Num 0"
    using under by (simp add: num_mul_finite double_nonzero)
  have zz: "num_mul double (Num 0) (Num 0) = Num 0"
    by (simp add: num_mul_finite double_zero zero_of_def)
  have s: "num_add double (Num 0) (Num 0) = Num 0"
    by (simp add: num_add_finite double_zero zero_of_def)
  have m: "mag double 5 ?H = Num 0"
    unfolding mag_def magSq_def vx vy sq zz s
    by (simp add: Math_sqrt_def double_zero zero_of_def)
  then have c1: "js_eq (mag double 5 ?H) (Num 0)"
    by (simp add: js_eq_def)
  have sx: "num_mul double (Num (1 / 2 ^ 600)) (Num 2) = Num (1 / 2 ^ 599)"
    using twice by (simp add: num_mul_finite double_nonzero)
  have sy: "num_mul double (Num 0) (Num 2) = Num 0"
    by (simp add: num_mul_finite double_zero zero_of_def)
  have "setMag double (Num 2) 5 ?H = scale double (Num 2) 5 ?H"
    unfolding setMag_def normalize_v_zero [OF c1] by simp
  then have c2: "snd (setMag double (Num 2) 5 ?H) 5 = \<lparr>x = Num (1 / 2 ^ 599), y = Num 0\<rparr>"
    unfolding scale_def vx vy sx sy by (simp add: vec2_update_both)
  have c3: "snd (setMag double PInf 5 ?Z) 5 = \<lparr>x = NaN, y = NaN\<rparr>"
    by (simp add: setMag_def normalize_v_def scale_def mag_def magSq_def Math_sqrt_def
        num_mul_def num_add_def js_eq_def double_def zero_of_def new_vec2_def constructor_def
        Let_def)
  show ?thesis
    by (intro conjI) (fact c1 c2 c3)+
qed

subsection \<open>The static \<^verbatim>\<open>angle\<close>\<close>

text \<open>
  C8, as amended. When the magnitude the program computes for either vector is exactly
  zero, the static \<^verbatim>\<open>angle(v1, v2)\<close> is NaN, whatever the other vector holds; for
  every pair, it is NaN or a number between 0 and \<^verbatim>\<open>Math.PI\<close>. In every arithmetic
  it is \<^verbatim>\<open>Math.acos\<close> of the dot product over the square root of the product of the
  squared magnitudes, with no guard. In exact real arithmetic, when both vectors have
  finite components and non-zero magnitudes, that is a number between 0 and \<open>\<pi>\<close>.
\<close>

theorem angle_zero_or_unsigned:
  "(js_eq (mag double v1 h) (Num 0) \<or> js_eq (mag double v2 h) (Num 0) \<longrightarrow>
      angle double v1 v2 h = NaN) \<and>
   (angle double v1 v2 h = NaN \<or>
    is_finite (angle double v1 v2 h) \<and> 0 \<le> real_of (angle double v1 v2 h) \<and>
      real_of (angle double v1 v2 h) \<le> real_of (Math_PI double)) \<and>
   angle rd v1 v2 h =
     Math_acos rd
       (num_div rd (dot rd v2 v1 h) (Math_sqrt rd (num_mul rd (magSq rd v1 h) (magSq rd v2 h)))) \<and>
   (x (h v1) = Num a \<and> y (h v1) = Num b \<and> x (h v2) = Num c \<and> y (h v2) = Num d \<and>
    \<not> js_eq (mag exact v1 h) (Num 0) \<and> \<not> js_eq (mag exact v2 h) (Num 0) \<longrightarrow>
      angle exact v1 v2 h
        = Num (arccos ((a * c + b * d) / sqrt ((a * a + b * b) * (c * c + d * d)))) \<and>
      0 \<le> arccos ((a * c + b * d) / sqrt ((a * a + b * b) * (c * c + d * d))) \<and>
      arccos ((a * c + b * d) / sqrt ((a * a + b * b) * (c * c + d * d))) \<le> pi)"
proof (intro conjI impI)
  assume "js_eq (mag double v1 h) (Num 0) \<or> js_eq (mag double v2 h) (Num 0)"
  then have "is_zero (magSq double v1 h) \<or> is_zero (magSq double v2 h)"
    using mag_double_zero_magSq by blast
  then show "angle double v1 v2 h = NaN"
    by (rule angle_zero_magSq)
next
  show "angle double v1 v2 h = NaN \<or>
    is_finite (angle double v1 v2 h) \<and> 0 \<le> real_of (angle double v1 v2 h) \<and>
      real_of (angle double v1 v2 h) \<le> real_of (Math_PI double)"
    unfolding angle_def by (rule Math_acos_double_range)
next
  show "angle rd v1 v2 h =
     Math_acos rd
       (num_div rd (dot rd v2 v1 h) (Math_sqrt rd (num_mul rd (magSq rd v1 h) (magSq rd v2 h))))"
    by (simp add: angle_def)
next
  let ?q = "(a * c + b * d) / sqrt ((a * a + b * b) * (c * c + d * d))"
  assume fin: "x (h v1) = Num a \<and> y (h v1) = Num b \<and> x (h v2) = Num c \<and> y (h v2) = Num d \<and>
    \<not> js_eq (mag exact v1 h) (Num 0) \<and> \<not> js_eq (mag exact v2 h) (Num 0)"
  then have nz: "a \<noteq> 0 \<or> b \<noteq> 0" "c \<noteq> 0 \<or> d \<noteq> 0"
    by (auto simp: mag_finite_zero_iff)
  from fin have comps: "x (h v1) = Num a" "y (h v1) = Num b" "x (h v2) = Num c" "y (h v2) = Num d"
    by simp_all
  note facts = angle_finite [of h v1 a b v2 c d, OF comps nz]
  show "angle exact v1 v2 h = Num (arccos ?q)" by (rule facts(1))
  show "0 \<le> arccos ?q" using facts(2,3) by (rule arccos_lbound)
  show "arccos ?q \<le> pi" using facts(2,3) by (rule arccos_ubound)
qed

theorem angle_zero_or_unsigned_witness:
  "angle double ORIGIN RIGHT initial_heap = NaN \<and>
   angle exact RIGHT TOP initial_heap = Num (pi / 2) \<and>
   angle double RIGHT TOP initial_heap = double False (pi / 2) \<and>
   0 \<le> real_of (angle double RIGHT TOP initial_heap) \<and>
   real_of (angle double RIGHT TOP initial_heap) \<le> real_of (Math_PI double)"
proof -
  have o: "x (initial_heap ORIGIN) = Num 0" "y (initial_heap ORIGIN) = Num 0"
    by (simp_all add: initial_heap_def static_init_def constructor_def
        ORIGIN_def RIGHT_def LEFT_def TOP_def DOWN_def)
  have r: "x (initial_heap RIGHT) = Num 1" "y (initial_heap RIGHT) = Num 0"
    by (simp_all add: initial_heap_def static_init_def constructor_def
        ORIGIN_def RIGHT_def LEFT_def TOP_def DOWN_def)
  have t: "x (initial_heap TOP) = Num 0" "y (initial_heap TOP) = Num 1"
    by (simp_all add: initial_heap_def static_init_def constructor_def
        ORIGIN_def RIGHT_def LEFT_def TOP_def DOWN_def)
  have "mag double ORIGIN initial_heap = Num 0"
    using o by (rule zero_vector_mag)
  then have z: "js_eq (mag double ORIGIN initial_heap) (Num 0)"
    by (simp add: js_eq_def)
  have nz: "\<not> js_eq (mag exact RIGHT initial_heap) (Num 0)"
    "\<not> js_eq (mag exact TOP initial_heap) (Num 0)"
    using r t by (simp_all add: mag_finite_zero_iff)
  have c1: "angle double ORIGIN RIGHT initial_heap = NaN"
    using angle_zero_or_unsigned [of ORIGIN initial_heap RIGHT double 0 0 1 0] z by blast
  have "angle exact RIGHT TOP initial_heap
      = Num (arccos ((1 * 0 + 0 * 1) / sqrt ((1 * 1 + 0 * 0) * (0 * 0 + 1 * 1))))"
    using angle_zero_or_unsigned [of RIGHT initial_heap TOP exact 1 0 0 1] r t nz by blast
  then have c2: "angle exact RIGHT TOP initial_heap = Num (pi / 2)"
    by simp
  have one: "num_mul double (Num 1) (Num 1) = Num 1"
    using round_double_1 by (simp add: num_mul_finite double_nonzero)
  have zero: "num_mul double (Num 0) (Num 0) = Num 0" "num_mul double (Num 1) (Num 0) = Num 0"
    "num_mul double (Num 0) (Num 1) = Num 0" "num_add double (Num 0) (Num 0) = Num 0"
    by (simp_all add: num_mul_finite num_add_finite double_zero zero_of_def)
  have sum: "num_add double (Num 1) (Num 0) = Num 1" "num_add double (Num 0) (Num 1) = Num 1"
    using round_double_1 by (simp_all add: num_add_finite double_nonzero)
  have root: "Math_sqrt double (Num 1) = Num 1"
    using round_double_1 by (simp add: Math_sqrt_def double_nonzero)
  have quot: "num_div double (Num 0) (Num 1) = Num 0"
    by (simp add: num_div_def double_zero zero_of_def)
  have c3: "angle double RIGHT TOP initial_heap = double False (pi / 2)"
    by (simp add: angle_def dot_def magSq_def r t one zero sum root quot Math_acos_def)
  have "\<bar>pi / 2\<bar> < 2 powi 1023"
    using pi_small pi_gt_zero by simp
  then have "is_finite (double False (pi / 2))"
    by (rule double_is_finite)
  then have "angle double RIGHT TOP initial_heap \<noteq> NaN"
    by (auto simp: c3 is_finite_def)
  then have c4: "0 \<le> real_of (angle double RIGHT TOP initial_heap)"
    and c5: "real_of (angle double RIGHT TOP initial_heap) \<le> real_of (Math_PI double)"
    using angle_zero_or_unsigned [of RIGHT initial_heap TOP double 1 0 0 1] by blast+
  show ?thesis
    by (intro conjI) (fact c1 c2 c3 c4 c5)+
qed

text \<open>
  C8, as stated, fails at the finite vectors \<^verbatim>\<open>v1 = v2 = (2 ** 600, 0)\<close>: neither
  magnitude is zero, but the dot product and both squared magnitudes overflow, the
  quotient is \<^verbatim>\<open>Infinity / Infinity\<close>, and the angle is NaN.
\<close>

theorem angle_overflow:
  "\<not> js_eq (mag double 5 (snd (new_vec2 (Some (Num (2 ^ 600))) (Some (Num 0)) 6
      (snd (new_vec2 (Some (Num (2 ^ 600))) (Some (Num 0)) 5 initial_heap))))) (Num 0) \<and>
   \<not> js_eq (mag double 6 (snd (new_vec2 (Some (Num (2 ^ 600))) (Some (Num 0)) 6
      (snd (new_vec2 (Some (Num (2 ^ 600))) (Some (Num 0)) 5 initial_heap))))) (Num 0) \<and>
   angle double 5 6 (snd (new_vec2 (Some (Num (2 ^ 600))) (Some (Num 0)) 6
      (snd (new_vec2 (Some (Num (2 ^ 600))) (Some (Num 0)) 5 initial_heap)))) = NaN"
proof -
  let ?H = "snd (new_vec2 (Some (Num (2 ^ 600))) (Some (Num 0)) 6
      (snd (new_vec2 (Some (Num (2 ^ 600))) (Some (Num 0)) 5 initial_heap)))"
  have v1: "x (?H 5) = Num (2 ^ 600)" "y (?H 5) = Num 0"
   and v2: "x (?H 6) = Num (2 ^ 600)" "y (?H 6) = Num 0"
    by (simp_all add: new_vec2_def constructor_def)
  have c1: "\<not> js_eq (mag double 5 ?H) (Num 0)"
    using overflowing_mag [of ?H 5 "2 ^ 600"] v1 round_double_2_1200 by simp
  have c2: "\<not> js_eq (mag double 6 ?H) (Num 0)"
    using overflowing_mag [of ?H 6 "2 ^ 600"] v2 round_double_2_1200 by simp
  have m1: "magSq double 5 ?H = PInf"
    using overflowing_magSq [of ?H 5 "2 ^ 600"] v1 round_double_2_1200 by simp
  have m2: "magSq double 6 ?H = PInf"
    using overflowing_magSq [of ?H 6 "2 ^ 600"] v2 round_double_2_1200 by simp
  have "dot double 6 5 ?H = magSq double 5 ?H"
    unfolding dot_def magSq_def v1 v2 ..
  then have d: "dot double 6 5 ?H = PInf"
    by (simp only: m1)
  have c3: "angle double 5 6 ?H = NaN"
    unfolding angle_def d m1 m2
    by (simp add: num_mul_def Math_sqrt_def num_div_def Math_acos_def inf_of_def)
  show ?thesis
    by (intro conjI) (fact c1 c2 c3)+
qed

subsection \<open>\<^verbatim>\<open>setMag\<close> with a negative target\<close>

text \<open>
  C9, as amended. When the magnitude is not zero, \<^verbatim>\<open>setMag(t)\<close> multiplies each
  normalized component by the signed target, with no clamping, in every arithmetic. In
  exact real arithmetic, for finite components not both zero and a finite \<open>t < 0\<close>, it
  returns the receiver, each component of the result is \<^verbatim>\<open>t / mag()\<close> times the
  original component, that factor is negative (the result points the opposite way), and
  the resulting magnitude is \<open>\<bar>t\<bar>\<close>. In binary64 arithmetic, for finite components the
  larger of which lies between \<^verbatim>\<open>2^-500\<close> and \<^verbatim>\<open>2^500\<close> in absolute value and a
  finite \<open>t < 0\<close> with \<open>\<bar>t\<bar>\<close> in the same range, each component of the result is the
  negative multiple \<^verbatim>\<open>t / |v|\<close> of the original component to within \<^verbatim>\<open>2^-49\<close> of its
  size and \<^verbatim>\<open>2^-573\<close>, and the resulting magnitude is \<open>\<bar>t\<bar>\<close> to within
  \<^verbatim>\<open>2^-47\<close> of its size.
\<close>

theorem setMag_negative_target:
  "(\<not> js_eq (mag rd this h) (Num 0) \<longrightarrow>
      snd (setMag rd t this h) =
        h(this := \<lparr>x = num_mul rd (num_mul rd (x (h this)) (num_div rd (Num 1) (mag rd this h))) t,
                     y = num_mul rd (num_mul rd (y (h this)) (num_div rd (Num 1) (mag rd this h))) t\<rparr>)) \<and>
   (x (h this) = Num a \<and> y (h this) = Num b \<and> (a \<noteq> 0 \<or> b \<noteq> 0) \<and> tv < 0 \<longrightarrow>
      fst (setMag exact (Num tv) this h) = this \<and>
      x (snd (setMag exact (Num tv) this h) this)
        = num_mul exact (num_div exact (Num tv) (mag exact this h)) (x (h this)) \<and>
      y (snd (setMag exact (Num tv) this h) this)
        = num_mul exact (num_div exact (Num tv) (mag exact this h)) (y (h this)) \<and>
      js_lt (num_div exact (Num tv) (mag exact this h)) (Num 0) \<and>
      mag exact this (snd (setMag exact (Num tv) this h)) = Num \<bar>tv\<bar>) \<and>
   (is_finite (x (h this)) \<and> is_finite (y (h this)) \<and> is_finite t \<and>
    c = real_of (x (h this)) \<and> d = real_of (y (h this)) \<and> s = real_of t \<and>
    2 powi (- 500) \<le> max \<bar>c\<bar> \<bar>d\<bar> \<and> max \<bar>c\<bar> \<bar>d\<bar> \<le> 2 powi 500 \<and>
    s < 0 \<and> 2 powi (- 500) \<le> \<bar>s\<bar> \<and> \<bar>s\<bar> \<le> 2 powi 500 \<longrightarrow>
      fst (setMag double t this h) = this \<and>
      s / sqrt (c * c + d * d) < 0 \<and>
      \<bar>real_of (x (snd (setMag double t this h) this)) - s / sqrt (c * c + d * d) * c\<bar>
        \<le> 2 powi (- 49) * \<bar>s / sqrt (c * c + d * d) * c\<bar> + 2 powi (- 573) \<and>
      \<bar>real_of (y (snd (setMag double t this h) this)) - s / sqrt (c * c + d * d) * d\<bar>
        \<le> 2 powi (- 49) * \<bar>s / sqrt (c * c + d * d) * d\<bar> + 2 powi (- 573) \<and>
      is_finite (mag double this (snd (setMag double t this h))) \<and>
      \<bar>real_of (mag double this (snd (setMag double t this h))) - \<bar>s\<bar>\<bar> \<le> 2 powi (- 47) * \<bar>s\<bar>)"
proof (intro conjI impI)
  assume "\<not> js_eq (mag rd this h) (Num 0)"
  then show "snd (setMag rd t this h) =
      h(this := \<lparr>x = num_mul rd (num_mul rd (x (h this)) (num_div rd (Num 1) (mag rd this h))) t,
                   y = num_mul rd (num_mul rd (y (h this)) (num_div rd (Num 1) (mag rd this h))) t\<rparr>)"
    by (simp add: setMag_def normalize_v_nonzero scale_def vec2_update_both)
next
  assume asm: "x (h this) = Num a \<and> y (h this) = Num b \<and> (a \<noteq> 0 \<or> b \<noteq> 0) \<and> tv < 0"
  let ?n = "sqrt (a * a + b * b)"
  from asm have vx: "x (h this) = Num a" and vy: "y (h this) = Num b"
    and nz: "a \<noteq> 0 \<or> b \<noteq> 0" and neg: "tv < 0" by simp_all
  have pos: "0 < ?n"
    using nz by (simp add: sum_squares_gt_zero_iff)
  have m: "mag exact this h = Num ?n"
    using vx vy by (rule mag_finite)
  have nnz: "?n \<noteq> 0"
    using nz by (simp add: sqrt_sum_squares_zero_iff)
  have factor: "num_div exact (Num tv) (mag exact this h) = Num (tv / ?n)"
    by (simp only: m exact_div [OF nnz])
  have fneg: "tv / ?n < 0"
    using pos neg by (simp add: divide_neg_pos)
  have res: "setMag exact (Num tv) this h =
      (this, h(this := \<lparr>x = Num (a / ?n * tv), y = Num (b / ?n * tv)\<rparr>))"
    using vx vy nz by (rule setMag_finite)
  show "fst (setMag exact (Num tv) this h) = this"
    by (simp add: res)
  show "x (snd (setMag exact (Num tv) this h) this)
      = num_mul exact (num_div exact (Num tv) (mag exact this h)) (x (h this))"
    by (simp add: res factor vx exact_mul mult.commute)
  show "y (snd (setMag exact (Num tv) this h) this)
      = num_mul exact (num_div exact (Num tv) (mag exact this h)) (y (h this))"
    by (simp add: res factor vy exact_mul mult.commute)
  show "js_lt (num_div exact (Num tv) (mag exact this h)) (Num 0)"
    using fneg by (simp add: factor js_lt_def)
  show "mag exact this (snd (setMag exact (Num tv) this h)) = Num \<bar>tv\<bar>"
    using vx vy nz by (rule setMag_finite_mag)
next
  assume r: "is_finite (x (h this)) \<and> is_finite (y (h this)) \<and> is_finite t \<and>
    c = real_of (x (h this)) \<and> d = real_of (y (h this)) \<and> s = real_of t \<and>
    2 powi (- 500) \<le> max \<bar>c\<bar> \<bar>d\<bar> \<and> max \<bar>c\<bar> \<bar>d\<bar> \<le> 2 powi 500 \<and>
    s < 0 \<and> 2 powi (- 500) \<le> \<bar>s\<bar> \<and> \<bar>s\<bar> \<le> 2 powi 500"
  then have fx: "is_finite (x (h this))" and fy: "is_finite (y (h this))" and ft: "is_finite t"
    and c: "c = real_of (x (h this))" and d: "d = real_of (y (h this))" and s: "s = real_of t"
    and lo: "2 powi (- 500) \<le> max \<bar>c\<bar> \<bar>d\<bar>" and hi: "max \<bar>c\<bar> \<bar>d\<bar> \<le> 2 powi 500"
    and neg: "s < 0" and tlo: "2 powi (- 500) \<le> \<bar>s\<bar>" and thi: "\<bar>s\<bar> \<le> 2 powi 500"
    by blast+
  let ?n = "sqrt (c * c + d * d)"
  have "0 < c * c + d * d"
    using square_bounds(3) [OF range_510 [OF lo hi]] powi_pos [of "- 1020"] by linarith
  then have pos: "0 < ?n"
    by (simp only: real_sqrt_gt_0_iff)
  have fc: "c * (1 / ?n) * s = s / ?n * c" and fd: "d * (1 / ?n) * s = s / ?n * d"
    by simp_all
  show "fst (setMag double t this h) = this"
    by (rule setMag_returns_this)
  show "s / ?n < 0"
    using pos neg by (simp add: divide_neg_pos)
  have "\<bar>real_of (x (snd (setMag double t this h) this)) - c * (1 / ?n) * s\<bar>
      \<le> 2 powi (- 49) * \<bar>c * (1 / ?n) * s\<bar> + 2 powi (- 573)"
    using c d fx fy lo hi ft s tlo thi by (rule setMag_double_error)
  then show "\<bar>real_of (x (snd (setMag double t this h) this)) - s / ?n * c\<bar>
      \<le> 2 powi (- 49) * \<bar>s / ?n * c\<bar> + 2 powi (- 573)"
    by (simp only: fc)
  have "\<bar>real_of (y (snd (setMag double t this h) this)) - d * (1 / ?n) * s\<bar>
      \<le> 2 powi (- 49) * \<bar>d * (1 / ?n) * s\<bar> + 2 powi (- 573)"
    using c d fx fy lo hi ft s tlo thi by (rule setMag_double_error)
  then show "\<bar>real_of (y (snd (setMag double t this h) this)) - s / ?n * d\<bar>
      \<le> 2 powi (- 49) * \<bar>s / ?n * d\<bar> + 2 powi (- 573)"
    by (simp only: fd)
  show "is_finite (mag double this (snd (setMag double t this h)))"
    using c d fx fy lo hi ft s tlo thi by (rule setMag_double_error)
  show "\<bar>real_of (mag double this (snd (setMag double t this h))) - \<bar>s\<bar>\<bar> \<le> 2 powi (- 47) * \<bar>s\<bar>"
    using c d fx fy lo hi ft s tlo thi by (rule setMag_double_error)
qed

theorem setMag_negative_target_witness:
  "x (snd (setMag exact (Num (- 10)) 5 (snd (new_vec2 (Some (Num 3)) (Some (Num 4)) 5 initial_heap))) 5)
     = Num (- 6) \<and>
   y (snd (setMag exact (Num (- 10)) 5 (snd (new_vec2 (Some (Num 3)) (Some (Num 4)) 5 initial_heap))) 5)
     = Num (- 8) \<and>
   mag exact 5
     (snd (setMag exact (Num (- 10)) 5 (snd (new_vec2 (Some (Num 3)) (Some (Num 4)) 5 initial_heap))))
     = Num 10 \<and>
   \<bar>real_of (mag double 5
      (snd (setMag double (Num (- 10)) 5 (snd (new_vec2 (Some (Num 3)) (Some (Num 4)) 5 initial_heap)))))
      - 10\<bar> \<le> 2 powi (- 47) * 10"
proof -
  let ?H = "snd (new_vec2 (Some (Num 3)) (Some (Num 4)) 5 initial_heap)"
  have sq: "sqrt 25 = 5"
    by (rule real_sqrt_unique) simp_all
  have vx: "x (?H 5) = Num 3" and vy: "y (?H 5) = Num 4"
    by (simp_all add: new_vec2_def constructor_def)
  then have m: "mag exact 5 ?H = Num 5"
    by (simp add: mag_finite sq)
  have hyp: "x (?H 5) = Num 3 \<and> y (?H 5) = Num 4 \<and> ((3::real) \<noteq> 0 \<or> (4::real) \<noteq> 0)
      \<and> (- 10::real) < 0"
    using vx vy by simp
  note inst = setMag_negative_target [of exact 5 ?H "Num (- 10)" 3 4 "- 10" 3 4 "- 10"]
  have "x (snd (setMag exact (Num (- 10)) 5 ?H) 5)
      = num_mul exact (num_div exact (Num (- 10)) (mag exact 5 ?H)) (x (?H 5))"
    using inst hyp by blast
  then have c1: "x (snd (setMag exact (Num (- 10)) 5 ?H) 5) = Num (- 6)"
    by (simp add: m vx exact_simps)
  have "y (snd (setMag exact (Num (- 10)) 5 ?H) 5)
      = num_mul exact (num_div exact (Num (- 10)) (mag exact 5 ?H)) (y (?H 5))"
    using inst hyp by blast
  then have c2: "y (snd (setMag exact (Num (- 10)) 5 ?H) 5) = Num (- 8)"
    by (simp add: m vy exact_simps)
  have "mag exact 5 (snd (setMag exact (Num (- 10)) 5 ?H)) = Num \<bar>- 10\<bar>"
    using inst hyp by blast
  then have c3: "mag exact 5 (snd (setMag exact (Num (- 10)) 5 ?H)) = Num 10"
    by simp
  have "(2 powi (- 500) :: real) \<le> 2 powi 2" and "(2 powi 2 :: real) \<le> 2 powi 500"
    and "(2 powi (- 500) :: real) \<le> 2 powi 3" and "(2 powi 4 :: real) \<le> 2 powi 500"
    by (intro power_int_increasing; simp)+
  then have hyp2: "is_finite (x (?H 5)) \<and> is_finite (y (?H 5)) \<and> is_finite (Num (- 10)) \<and>
      (3::real) = real_of (x (?H 5)) \<and> (4::real) = real_of (y (?H 5)) \<and>
      (- 10::real) = real_of (Num (- 10)) \<and>
      2 powi (- 500) \<le> max \<bar>3::real\<bar> \<bar>4\<bar> \<and> max \<bar>3::real\<bar> \<bar>4\<bar> \<le> 2 powi 500 \<and>
      (- 10::real) < 0 \<and> 2 powi (- 500) \<le> \<bar>- 10::real\<bar> \<and> \<bar>- 10::real\<bar> \<le> 2 powi 500"
    by (simp add: vx vy is_finite_def)
  have "\<bar>real_of (mag double 5 (snd (setMag double (Num (- 10)) 5 ?H))) - \<bar>- 10\<bar>\<bar>
      \<le> 2 powi (- 47) * \<bar>- 10\<bar>"
    using setMag_negative_target [of double 5 ?H "Num (- 10)" 3 4 "- 10" 3 4 "- 10"] hyp2
    by blast
  then have c4: "\<bar>real_of (mag double 5 (snd (setMag double (Num (- 10)) 5 ?H))) - 10\<bar>
      \<le> 2 powi (- 47) * 10"
    by simp
  show ?thesis
    by (intro conjI) (fact c1 c2 c3 c4)+
qed

text \<open>
  C9, as stated, fails at the finite vector \<^verbatim>\<open>new vec2(2 ** 600, 0)\<close> and the target
  \<open>-2\<close>: the squared magnitude overflows, the normalized vector is \<^verbatim>\<open>(0, 0)\<close>, and
  \<^verbatim>\<open>setMag(-2)\<close> leaves \<^verbatim>\<open>(-0, -0)\<close>, of magnitude 0 and not 2.
\<close>

theorem setMag_negative_target_overflow:
  "js_lt (Num (- 2)) (Num 0) \<and>
   \<not> js_eq (mag double 5 (snd (new_vec2 (Some (Num (2 ^ 600))) (Some (Num 0)) 5 initial_heap)))
      (Num 0) \<and>
   snd (setMag double (Num (- 2)) 5
          (snd (new_vec2 (Some (Num (2 ^ 600))) (Some (Num 0)) 5 initial_heap))) 5
     = \<lparr>x = NZero, y = NZero\<rparr> \<and>
   mag double 5
     (snd (setMag double (Num (- 2)) 5
            (snd (new_vec2 (Some (Num (2 ^ 600))) (Some (Num 0)) 5 initial_heap))))
     = Num 0"
proof -
  let ?H = "snd (new_vec2 (Some (Num (2 ^ 600))) (Some (Num 0)) 5 initial_heap)"
  have vx: "x (?H 5) = Num (2 ^ 600)" and vy: "y (?H 5) = Num 0"
    by (simp_all add: new_vec2_def constructor_def)
  have c0: "js_lt (Num (- 2)) (Num 0)"
    by (simp add: js_lt_def)
  have c1: "\<not> js_eq (mag double 5 ?H) (Num 0)"
    using overflowing_mag [of ?H 5 "2 ^ 600"] vx vy round_double_2_1200 by simp
  have "setMag double (Num (- 2)) 5 ?H
      = (5, ?H(5 := \<lparr>x = double (- 2 < (0::real)) 0, y = double (- 2 < (0::real)) 0\<rparr>))"
    using overflowing_setMag [of ?H 5 "2 ^ 600" "- 2"] vx vy round_double_2_1200 by simp
  then have c2: "snd (setMag double (Num (- 2)) 5 ?H) 5 = \<lparr>x = NZero, y = NZero\<rparr>"
    by (simp add: double_zero zero_of_def)
  have "x (snd (setMag double (Num (- 2)) 5 ?H) 5) = NZero"
   and "y (snd (setMag double (Num (- 2)) 5 ?H) 5) = NZero"
    unfolding c2 by simp_all
  then have c3: "mag double 5 (snd (setMag double (Num (- 2)) 5 ?H)) = Num 0"
    by (rule negative_zero_vector_mag)
  show ?thesis
    by (intro conjI) (fact c0 c1 c2 c3)+
qed

subsection \<open>\<^verbatim>\<open>rotateAround\<close>\<close>

text \<open>
  C10. In exact real arithmetic, for finite components of the vector and of the
  origin and a finite angle, \<^verbatim>\<open>rotateAround(a, o)\<close> keeps the distance to the origin
  of the rotation: subtracting \<open>o\<close> from the rotated vector gives the magnitude that
  subtracting it from the original vector gives. The origin may be left out (it is
  then \<^verbatim>\<open>vec2.ORIGIN\<close>, as the heap holds it) and may be the receiver itself.
\<close>

theorem rotateAround_preserves_distance:
  assumes "x (h this) = Num vx" and "y (h this) = Num vy"
      and "x (h (case origin of None \<Rightarrow> ORIGIN | Some r \<Rightarrow> r)) = Num ox"
      and "y (h (case origin of None \<Rightarrow> ORIGIN | Some r \<Rightarrow> r)) = Num oy"
  shows "mag exact this (snd (sub exact (case origin of None \<Rightarrow> ORIGIN | Some r \<Rightarrow> r) this
                          (snd (rotateAround exact (Num a) origin this h))))
       = mag exact this (snd (sub exact (case origin of None \<Rightarrow> ORIGIN | Some r \<Rightarrow> r) this h))"
proof -
  let ?o = "case origin of None \<Rightarrow> ORIGIN | Some r \<Rightarrow> r"
  let ?rx = "(vx - ox) * cos a - (vy - oy) * sin a + ox"
  let ?ry = "(vx - ox) * sin a + (vy - oy) * cos a + oy"
  let ?h1 = "h(this := \<lparr>x = Num ?rx, y = Num ?ry\<rparr>)"
  have rot: "snd (rotateAround exact (Num a) origin this h) = ?h1"
    using assms by (simp add: rotateAround_finite)
  have before: "mag exact this (snd (sub exact ?o this h))
      = Num (sqrt ((vx - ox) * (vx - ox) + (vy - oy) * (vy - oy)))"
    using assms by (simp add: sub_finite mag_finite)
  show ?thesis
  proof (cases "?o = this")
    case True
    then have same: "ox = vx" "oy = vy"
      using assms by simp_all
    have "sub exact ?o this ?h1
        = (this, ?h1(this := \<lparr>x = Num (?rx - ?rx), y = Num (?ry - ?ry)\<rparr>))"
      by (rule sub_finite) (simp_all add: True)
    then have "mag exact this (snd (sub exact ?o this ?h1)) = Num 0"
      by (simp add: mag_finite)
    then show ?thesis
      by (simp add: rot before same)
  next
    case False
    then have "x (?h1 ?o) = Num ox" and "y (?h1 ?o) = Num oy"
      using assms by simp_all
    then have "sub exact ?o this ?h1
        = (this, ?h1(this := \<lparr>x = Num (?rx - ox), y = Num (?ry - oy)\<rparr>))"
      by (intro sub_finite) simp_all
    then have "mag exact this (snd (sub exact ?o this ?h1))
        = Num (sqrt ((?rx - ox) * (?rx - ox) + (?ry - oy) * (?ry - oy)))"
      by (simp add: mag_finite)
    also have "\<dots> = Num (sqrt ((vx - ox) * (vx - ox) + (vy - oy) * (vy - oy)))"
      using rotation_magSq [of "vx - ox" a "vy - oy"] by simp
    finally show ?thesis
      by (simp add: rot before)
  qed
qed

theorem rotateAround_preserves_distance_witness:
  "mag exact 5 (snd (sub exact 6 5 (snd (rotateAround exact (Num pi) (Some 6) 5
      (snd (new_vec2 (Some (Num 1)) (Some (Num 0)) 6
        (snd (new_vec2 (Some (Num 2)) (Some (Num 0)) 5 initial_heap))))))))
   = mag exact 5 (snd (sub exact 6 5
      (snd (new_vec2 (Some (Num 1)) (Some (Num 0)) 6
        (snd (new_vec2 (Some (Num 2)) (Some (Num 0)) 5 initial_heap)))))) \<and>
   mag exact 5 (snd (sub exact 6 5
      (snd (new_vec2 (Some (Num 1)) (Some (Num 0)) 6
        (snd (new_vec2 (Some (Num 2)) (Some (Num 0)) 5 initial_heap)))))) = Num 1"
proof -
  let ?H = "snd (new_vec2 (Some (Num 1)) (Some (Num 0)) 6
      (snd (new_vec2 (Some (Num 2)) (Some (Num 0)) 5 initial_heap)))"
  have vx: "x (?H 5) = Num 2" and vy: "y (?H 5) = Num 0"
    by (simp_all add: new_vec2_def constructor_def)
  have ox: "x (?H (case Some 6 of None \<Rightarrow> ORIGIN | Some r \<Rightarrow> r)) = Num 1"
   and oy: "y (?H (case Some 6 of None \<Rightarrow> ORIGIN | Some r \<Rightarrow> r)) = Num 0"
    by (simp_all add: new_vec2_def constructor_def)
  have c1: "mag exact 5 (snd (sub exact 6 5 (snd (rotateAround exact (Num pi) (Some 6) 5 ?H))))
      = mag exact 5 (snd (sub exact 6 5 ?H))"
    using rotateAround_preserves_distance [of ?H 5 2 0 "Some 6" 1 0 pi, OF vx vy ox oy]
    by simp
  have c2: "mag exact 5 (snd (sub exact 6 5 ?H)) = Num 1"
    by (simp add: sub_def translate_def mag_def magSq_def new_vec2_def constructor_def
        exact_simps)
  show ?thesis
    by (intro conjI) (fact c1 c2)+
qed

end
